theory Spec2Isabelle
  imports Main
begin

section \<open>Memory: nodes, pointers and faults\<close>

text \<open>
  The three list variants of the repository (the header-based C++ implementation, the
  self-contained C++ class of \<^verbatim>\<open>basic-question.cpp\<close> and the JavaScript class) all
  build a chain of \<^verbatim>\<open>Node\<close> objects linked by \<^verbatim>\<open>next\<close> pointers, and keep a
  \<^verbatim>\<open>tail\<close> pointer into that chain. The aliasing between \<^verbatim>\<open>tail\<close> and the chain
  matters, so the memory is explicit: an array of cells indexed by address. A cell is
  \<open>Some node\<close> while the node is live and \<open>None\<close> once it has been deleted; \<^verbatim>\<open>new\<close>
  takes the next unused address (addresses are never handed out twice). A pointer is an
  \<open>addr option\<close>, \<open>None\<close> being the null pointer. The record fields are named \<open>val\<close> and
  \<open>nxt\<close> for the source's \<^verbatim>\<open>value\<close> and \<^verbatim>\<open>next\<close>, and \<open>length_ll\<close> for \<^verbatim>\<open>length\<close>.
  The counters (\<^verbatim>\<open>int length\<close>, \<^verbatim>\<open>int index\<close>) are mathematical integers: the model
  agrees with the program while fewer than \<open>2^31\<close> nodes are live.
\<close>

datatype error = NullDeref | Dangling

type_synonym addr = nat

record 'v node =
  val :: 'v
  nxt :: "addr option"

type_synonym 'v heap = "'v node option list"

definition cell :: "'v heap \<Rightarrow> addr \<Rightarrow> 'v node option" where
  "cell h a = (if a < length h then h ! a else None)"

text \<open>Reading through a pointer (\<^verbatim>\<open>p->value\<close>, \<^verbatim>\<open>p->next\<close>).\<close>

definition deref :: "'v heap \<Rightarrow> addr option \<Rightarrow> error + 'v node" where
  "deref h p =
     (case p of
        None \<Rightarrow> Inl NullDeref
      | Some a \<Rightarrow> (case cell h a of None \<Rightarrow> Inl Dangling | Some n \<Rightarrow> Inr n))"

text \<open>\<^verbatim>\<open>new Node(v)\<close>: the constructor sets \<^verbatim>\<open>next\<close> to null.\<close>

definition new_node :: "'v \<Rightarrow> 'v heap \<Rightarrow> addr \<times> 'v heap" where
  "new_node v h = (length h, h @ [Some \<lparr>val = v, nxt = None\<rparr>])"

text \<open>The assignment \<^verbatim>\<open>p->next = q\<close>.\<close>

definition set_next :: "'v heap \<Rightarrow> addr option \<Rightarrow> addr option \<Rightarrow> error + 'v heap" where
  "set_next h p q =
     (case p of
        None \<Rightarrow> Inl NullDeref
      | Some a \<Rightarrow>
          (case cell h a of
             None \<Rightarrow> Inl Dangling
           | Some n \<Rightarrow> Inr (h[a := Some (n\<lparr>nxt := q\<rparr>)])))"

text \<open>\<^verbatim>\<open>delete p\<close>: deleting the null pointer does nothing; deleting a dead node is a fault.\<close>

definition delete_node :: "'v heap \<Rightarrow> addr option \<Rightarrow> error + 'v heap" where
  "delete_node h p =
     (case p of
        None \<Rightarrow> Inr h
      | Some a \<Rightarrow>
          (case cell h a of
             None \<Rightarrow> Inl Dangling
           | Some n \<Rightarrow> Inr (h[a := None])))"

text \<open>
  The machine state: the memory, the three fields of the one \<^verbatim>\<open>LinkedList\<close> object,
  and the lines written to the console so far.
\<close>

record 'v state =
  heap :: "'v heap"
  head :: "addr option"
  tail :: "addr option"
  length_ll :: int
  console :: "string list"

section \<open>Loops shared by the variants\<close>

text \<open>
  \<^verbatim>\<open>for (int i = 0; i < k; i++) prev = prev->next;\<close> runs a fixed number of times.
\<close>

fun walk :: "'v heap \<Rightarrow> addr option \<Rightarrow> nat \<Rightarrow> error + addr option" where
  "walk h p 0 = Inr p"
| "walk h p (Suc k) =
     (case deref h p of Inl e \<Rightarrow> Inl e | Inr n \<Rightarrow> walk h (nxt n) k)"

text \<open>
  \<^verbatim>\<open>while (temp->next != tail) temp = temp->next;\<close> of \<^verbatim>\<open>deleteLast\<close>. On a chain
  that never reaches \<^verbatim>\<open>tail\<close> the loop faults at the end of the chain, or runs forever
  on a cycle: not returning is the value \<open>None\<close>.
\<close>

partial_function (option) find_before ::
  "'v heap \<Rightarrow> addr option \<Rightarrow> addr option \<Rightarrow> (error + addr option) option" where
  "find_before h t temp =
     (case deref h temp of
        Inl e \<Rightarrow> Some (Inl e)
      | Inr n \<Rightarrow> if nxt n = t then Some (Inr temp) else find_before h t (nxt n))"

text \<open>
  The traversal of \<^verbatim>\<open>printList\<close>, \<^verbatim>\<open>while (temp) { ... temp->value ...; temp = temp->next; }\<close>,
  returning the values in the order they are printed.
\<close>

partial_function (option) traverse ::
  "'v heap \<Rightarrow> addr option \<Rightarrow> (error + 'v list) option" where
  "traverse h temp =
     (case temp of
        None \<Rightarrow> Some (Inr [])
      | Some a \<Rightarrow>
          (case cell h a of
             None \<Rightarrow> Some (Inl Dangling)
           | Some n \<Rightarrow>
               Option.bind (traverse h (nxt n))
                 (\<lambda>r. Some (case r of Inl e \<Rightarrow> Inl e | Inr vs \<Rightarrow> Inr (val n # vs)))))"

declare find_before.simps [code]
declare traverse.simps [code]

definition to_list :: "'v state \<Rightarrow> (error + 'v list) option" where
  "to_list s = traverse (heap s) (head s)"

section \<open>The header-based C++ implementation\<close>

text \<open>
  The member functions defined out of line for \<^verbatim>\<open>class LinkedList\<close> of the header file.
  A \<^verbatim>\<open>void\<close> member returns the new state only; a \<^verbatim>\<open>bool\<close> member returns its
  result with the new state. A fault (null or dangling pointer) is \<open>Inl\<close>.
\<close>

text \<open>The constructor, run on an empty memory.\<close>

definition create :: "'v \<Rightarrow> 'v state" where
  "create v =
     (let (a, h) = new_node v []
      in \<lparr>heap = h, head = Some a, tail = Some a, length_ll = 1, console = []\<rparr>)"

definition append :: "'v \<Rightarrow> 'v state \<Rightarrow> error + 'v state" where
  "append v s =
     (let (a, h) = new_node v (heap s)
      in case head s of
           None \<Rightarrow>
             Inr (s\<lparr>heap := h, head := Some a, tail := Some a, length_ll := length_ll s + 1\<rparr>)
         | Some _ \<Rightarrow>
             (case set_next h (tail s) (Some a) of
                Inl e \<Rightarrow> Inl e
              | Inr h' \<Rightarrow>
                  Inr (s\<lparr>heap := h', tail := Some a, length_ll := length_ll s + 1\<rparr>)))"

definition prepend :: "'v \<Rightarrow> 'v state \<Rightarrow> error + 'v state" where
  "prepend v s =
     (let (a, h) = new_node v (heap s)
      in case head s of
           None \<Rightarrow>
             Inr (s\<lparr>heap := h, head := Some a, tail := Some a, length_ll := length_ll s + 1\<rparr>)
         | Some _ \<Rightarrow>
             (case set_next h (Some a) (head s) of
                Inl e \<Rightarrow> Inl e
              | Inr h' \<Rightarrow>
                  Inr (s\<lparr>heap := h', head := Some a, length_ll := length_ll s + 1\<rparr>)))"

definition deleteLast :: "'v state \<Rightarrow> (error + 'v state) option" where
  "deleteLast s =
     (case head s of
        None \<Rightarrow> Some (Inr s)
      | Some _ \<Rightarrow>
          if head s = tail s then
            (case delete_node (heap s) (head s) of
               Inl e \<Rightarrow> Some (Inl e)
             | Inr h \<Rightarrow>
                 Some (Inr (s\<lparr>heap := h, head := None, tail := None,
                              length_ll := length_ll s - 1\<rparr>)))
          else
            (case find_before (heap s) (tail s) (head s) of
               None \<Rightarrow> None
             | Some (Inl e) \<Rightarrow> Some (Inl e)
             | Some (Inr temp) \<Rightarrow>
                 (case delete_node (heap s) (tail s) of
                    Inl e \<Rightarrow> Some (Inl e)
                  | Inr h \<Rightarrow>
                      (case set_next h temp None of
                         Inl e \<Rightarrow> Some (Inl e)
                       | Inr h' \<Rightarrow>
                           Some (Inr (s\<lparr>heap := h', tail := temp,
                                        length_ll := length_ll s - 1\<rparr>))))))"

definition deleteFirst :: "'v state \<Rightarrow> error + 'v state" where
  "deleteFirst s =
     (case head s of
        None \<Rightarrow> Inr s
      | Some _ \<Rightarrow>
          (case deref (heap s) (head s) of
             Inl e \<Rightarrow> Inl e
           | Inr n \<Rightarrow>
               (case delete_node (heap s) (head s) of
                  Inl e \<Rightarrow> Inl e
                | Inr h \<Rightarrow>
                    Inr (s\<lparr>heap := h, head := nxt n,
                          tail := (if nxt n = None then None else tail s),
                          length_ll := length_ll s - 1\<rparr>))))"

definition getLength :: "'v state \<Rightarrow> int" where
  "getLength s = length_ll s"

definition insert_ll :: "'v \<Rightarrow> int \<Rightarrow> 'v state \<Rightarrow> error + bool \<times> 'v state" where
  "insert_ll v index s =
     (if index < 0 \<or> index > length_ll s then Inr (False, s)
      else if index = 0 then
        (case prepend v s of Inl e \<Rightarrow> Inl e | Inr s' \<Rightarrow> Inr (True, s'))
      else if index = length_ll s then
        (case append v s of Inl e \<Rightarrow> Inl e | Inr s' \<Rightarrow> Inr (True, s'))
      else
        (let (a, h) = new_node v (heap s)
         in case walk h (head s) (nat (index - 1)) of
              Inl e \<Rightarrow> Inl e
            | Inr prev \<Rightarrow>
                (case deref h prev of
                   Inl e \<Rightarrow> Inl e
                 | Inr pn \<Rightarrow>
                     (case set_next h (Some a) (nxt pn) of
                        Inl e \<Rightarrow> Inl e
                      | Inr h1 \<Rightarrow>
                          (case set_next h1 prev (Some a) of
                             Inl e \<Rightarrow> Inl e
                           | Inr h2 \<Rightarrow>
                               Inr (True, s\<lparr>heap := h2,
                                            length_ll := length_ll s + 1\<rparr>))))))"

definition deletePosition :: "int \<Rightarrow> 'v state \<Rightarrow> error + bool \<times> 'v state" where
  "deletePosition index s =
     (if index < 0 \<or> index \<ge> length_ll s then Inr (False, s)
      else if index = 0 then
        (case deleteFirst s of Inl e \<Rightarrow> Inl e | Inr s' \<Rightarrow> Inr (True, s'))
      else
        (case walk (heap s) (head s) (nat (index - 1)) of
           Inl e \<Rightarrow> Inl e
         | Inr prev \<Rightarrow>
             (case deref (heap s) prev of
                Inl e \<Rightarrow> Inl e
              | Inr pn \<Rightarrow>
                  (case deref (heap s) (nxt pn) of
                     Inl e \<Rightarrow> Inl e
                   | Inr dn \<Rightarrow>
                       (case set_next (heap s) prev (nxt dn) of
                          Inl e \<Rightarrow> Inl e
                        | Inr h1 \<Rightarrow>
                            (case delete_node h1 (nxt pn) of
                               Inl e \<Rightarrow> Inl e
                             | Inr h2 \<Rightarrow>
                                 Inr (True, s\<lparr>heap := h2,
                                              tail := (if nxt pn = tail s then prev else tail s),
                                              length_ll := length_ll s - 1\<rparr>)))))))"

text \<open>
  The loop of \<^verbatim>\<open>reverseLinkedList\<close>, \<^verbatim>\<open>while (curr) { ... }\<close>, returning the memory and
  \<^verbatim>\<open>prev\<close> at exit (\<open>cur\<close> is the source's \<^verbatim>\<open>curr\<close>).
\<close>

partial_function (option) reverse_loop ::
  "'v heap \<Rightarrow> addr option \<Rightarrow> addr option \<Rightarrow> (error + 'v heap \<times> addr option) option" where
  "reverse_loop h prev cur =
     (case cur of
        None \<Rightarrow> Some (Inr (h, prev))
      | Some _ \<Rightarrow>
          (case deref h cur of
             Inl e \<Rightarrow> Some (Inl e)
           | Inr n \<Rightarrow>
               (case set_next h cur prev of
                  Inl e \<Rightarrow> Some (Inl e)
                | Inr h' \<Rightarrow> reverse_loop h' cur (nxt n))))"

declare reverse_loop.simps [code]

definition reverseLinkedList :: "'v state \<Rightarrow> (error + 'v state) option" where
  "reverseLinkedList s =
     (case reverse_loop (heap s) None (head s) of
        None \<Rightarrow> None
      | Some (Inl e) \<Rightarrow> Some (Inl e)
      | Some (Inr (h, prev)) \<Rightarrow> Some (Inr (s\<lparr>heap := h, head := prev, tail := head s\<rparr>)))"

section \<open>The class of \<^verbatim>\<open>basic-question.cpp\<close>\<close>

text \<open>
  The second C++ variant defines its members inside the class. Its constructor, \<^verbatim>\<open>append\<close>
  and \<^verbatim>\<open>prepend\<close> have the same bodies as above (\<open>create\<close>, \<open>append\<close>, \<open>prepend\<close>);
  the members below differ and carry the suffix \<open>_bq\<close>. This variant writes a line to
  standard output where it rejects a call.
\<close>

definition print :: "string \<Rightarrow> 'v state \<Rightarrow> 'v state" where
  "print line s = s\<lparr>console := console s @ [line]\<rparr>"

definition deleteLast_bq :: "'v state \<Rightarrow> (error + 'v state) option" where
  "deleteLast_bq s =
     (case head s of
        None \<Rightarrow> Some (Inr (print ''Error: Cannot delete from an empty list.'' s))
      | Some _ \<Rightarrow>
          if head s = tail s then
            (case delete_node (heap s) (head s) of
               Inl e \<Rightarrow> Some (Inl e)
             | Inr h \<Rightarrow>
                 Some (Inr (s\<lparr>heap := h, head := None, tail := None,
                              length_ll := length_ll s - 1\<rparr>)))
          else
            (case find_before (heap s) (tail s) (head s) of
               None \<Rightarrow> None
             | Some (Inl e) \<Rightarrow> Some (Inl e)
             | Some (Inr temp) \<Rightarrow>
                 (case delete_node (heap s) (tail s) of
                    Inl e \<Rightarrow> Some (Inl e)
                  | Inr h \<Rightarrow>
                      (case set_next h temp None of
                         Inl e \<Rightarrow> Some (Inl e)
                       | Inr h' \<Rightarrow>
                           Some (Inr (s\<lparr>heap := h', tail := temp,
                                        length_ll := length_ll s - 1\<rparr>))))))"

definition deleteFirst_bq :: "'v state \<Rightarrow> error + 'v state" where
  "deleteFirst_bq s =
     (case head s of
        None \<Rightarrow> Inr (print ''Error: Cannot delete from an empty list.'' s)
      | Some _ \<Rightarrow>
          (case deref (heap s) (head s) of
             Inl e \<Rightarrow> Inl e
           | Inr n \<Rightarrow>
               (let s1 = (if nxt n = None then s\<lparr>head := None, tail := None\<rparr>
                          else s\<lparr>head := nxt n\<rparr>)
                in case delete_node (heap s) (head s) of
                     Inl e \<Rightarrow> Inl e
                   | Inr h \<Rightarrow> Inr (s1\<lparr>heap := h, length_ll := length_ll s - 1\<rparr>))))"

definition insert_bq :: "'v \<Rightarrow> int \<Rightarrow> 'v state \<Rightarrow> error + bool \<times> 'v state" where
  "insert_bq v index s =
     (if head s = None then
        (case prepend v s of Inl e \<Rightarrow> Inl e | Inr s' \<Rightarrow> Inr (True, s'))
      else if index = length_ll s - 1 then
        (case append v s of Inl e \<Rightarrow> Inl e | Inr s' \<Rightarrow> Inr (True, s'))
      else
        (let (a, h) = new_node v (heap s)
         in case walk h (head s) (nat index) of
              Inl e \<Rightarrow> Inl e
            | Inr prev \<Rightarrow>
                (case deref h prev of
                   Inl e \<Rightarrow> Inl e
                 | Inr pn \<Rightarrow>
                     (case set_next h (Some a) (nxt pn) of
                        Inl e \<Rightarrow> Inl e
                      | Inr h1 \<Rightarrow>
                          (case set_next h1 prev (Some a) of
                             Inl e \<Rightarrow> Inl e
                           | Inr h2 \<Rightarrow>
                               Inr (True, s\<lparr>heap := h2,
                                            length_ll := length_ll s + 1\<rparr>))))))"

definition deletePosition_bq :: "int \<Rightarrow> 'v state \<Rightarrow> error + bool \<times> 'v state" where
  "deletePosition_bq index s =
     (if head s = None then Inr (False, print ''Empty List'' s)
      else if index < 0 \<or> index \<ge> length_ll s then
        Inr (False, print ''Index out of bounds'' s)
      else if index = 0 then
        (case deref (heap s) (head s) of
           Inl e \<Rightarrow> Inl e
         | Inr n \<Rightarrow>
             (case delete_node (heap s) (head s) of
                Inl e \<Rightarrow> Inl e
              | Inr h \<Rightarrow>
                  Inr (True, s\<lparr>heap := h, head := nxt n, length_ll := length_ll s - 1\<rparr>)))
      else
        (case walk (heap s) (head s) (nat (index - 1)) of
           Inl e \<Rightarrow> Inl e
         | Inr prev \<Rightarrow>
             (case deref (heap s) prev of
                Inl e \<Rightarrow> Inl e
              | Inr pn \<Rightarrow>
                  (case deref (heap s) (nxt pn) of
                     Inl e \<Rightarrow> Inl e
                   | Inr dn \<Rightarrow>
                       (case set_next (heap s) prev (nxt dn) of
                          Inl e \<Rightarrow> Inl e
                        | Inr h1 \<Rightarrow>
                            (case delete_node h1 (nxt pn) of
                               Inl e \<Rightarrow> Inl e
                             | Inr h2 \<Rightarrow>
                                 Inr (True, s\<lparr>heap := h2,
                                              length_ll := length_ll s - 1\<rparr>)))))))"

text \<open>
  The loop of this variant's \<^verbatim>\<open>reverseLinkedList\<close> is counted,
  \<^verbatim>\<open>for (int i = 0; i < length; i++)\<close>, and is preceded by the read
  \<^verbatim>\<open>Node* after = temp->next;\<close> of the old head (\<open>bef\<close> is the source's \<^verbatim>\<open>before\<close>).
\<close>

fun reverse_steps ::
  "nat \<Rightarrow> 'v heap \<Rightarrow> addr option \<Rightarrow> addr option \<Rightarrow> error + 'v heap" where
  "reverse_steps 0 h bef temp = Inr h"
| "reverse_steps (Suc k) h bef temp =
     (case deref h temp of
        Inl e \<Rightarrow> Inl e
      | Inr n \<Rightarrow>
          (case set_next h temp bef of
             Inl e \<Rightarrow> Inl e
           | Inr h' \<Rightarrow> reverse_steps k h' temp (nxt n)))"

definition reverseLinkedList_bq :: "'v state \<Rightarrow> error + 'v state" where
  "reverseLinkedList_bq s =
     (case deref (heap s) (head s) of
        Inl e \<Rightarrow> Inl e
      | Inr _ \<Rightarrow>
          (case reverse_steps (nat (length_ll s)) (heap s) None (head s) of
             Inl e \<Rightarrow> Inl e
           | Inr h \<Rightarrow> Inr (s\<lparr>heap := h, head := tail s, tail := head s\<rparr>)))"

section \<open>The JavaScript class\<close>

text \<open>
  The JavaScript list stores any value and its \<^verbatim>\<open>deleteFirst\<close> and \<^verbatim>\<open>deleteLast\<close>
  return the removed value, or \<^verbatim>\<open>null\<close> on an empty list. A value is \<open>Null\<close> or an
  opaque \<open>Val x\<close>; reading a property of \<^verbatim>\<open>null\<close> (a \<^verbatim>\<open>TypeError\<close>) is the fault
  \<open>NullDeref\<close>. Nothing is ever freed: a removed node stays in memory, unreachable.
  The constructor, \<^verbatim>\<open>append\<close> and \<^verbatim>\<open>prepend\<close> build the same states as \<open>create\<close>,
  \<open>append\<close> and \<open>prepend\<close>.
\<close>

datatype 'a js = Null | Val 'a

definition deleteLast_js :: "'a js state \<Rightarrow> (error + 'a js \<times> 'a js state) option" where
  "deleteLast_js s =
     (case head s of
        None \<Rightarrow> Some (Inr (Null, print ''Warning: Cannot delete from an empty list.'' s))
      | Some _ \<Rightarrow>
          if head s = tail s then
            (case deref (heap s) (head s) of
               Inl e \<Rightarrow> Some (Inl e)
             | Inr n \<Rightarrow>
                 Some (Inr (val n, s\<lparr>head := None, tail := None,
                                     length_ll := length_ll s - 1\<rparr>)))
          else
            (case find_before (heap s) (tail s) (head s) of
               None \<Rightarrow> None
             | Some (Inl e) \<Rightarrow> Some (Inl e)
             | Some (Inr temp) \<Rightarrow>
                 (case deref (heap s) (tail s) of
                    Inl e \<Rightarrow> Some (Inl e)
                  | Inr n \<Rightarrow>
                      (case set_next (heap s) temp None of
                         Inl e \<Rightarrow> Some (Inl e)
                       | Inr h' \<Rightarrow>
                           Some (Inr (val n, s\<lparr>heap := h', tail := temp,
                                               length_ll := length_ll s - 1\<rparr>))))))"

definition deleteFirst_js :: "'a js state \<Rightarrow> error + 'a js \<times> 'a js state" where
  "deleteFirst_js s =
     (case head s of
        None \<Rightarrow> Inr (Null, print ''Warning: Cannot delete from an empty list.'' s)
      | Some _ \<Rightarrow>
          (case deref (heap s) (head s) of
             Inl e \<Rightarrow> Inl e
           | Inr n \<Rightarrow>
               (if nxt n = None then
                  Inr (val n, s\<lparr>head := None, tail := None, length_ll := length_ll s - 1\<rparr>)
                else
                  Inr (val n, s\<lparr>head := nxt n, length_ll := length_ll s - 1\<rparr>))))"

section \<open>Sequences of operations\<close>

text \<open>
  A client program is a constructor call followed by a sequence of member calls; the
  results of \<^verbatim>\<open>insert\<close> and \<^verbatim>\<open>deletePosition\<close> are dropped, as in \<^verbatim>\<open>main\<close>. A run
  stops at the first fault.
\<close>

datatype 'v operation =
    Append 'v
  | Prepend 'v
  | Insert 'v int
  | DeleteFirst
  | DeleteLast
  | DeletePosition int
  | Reverse

definition drop_result :: "error + 'b \<times> 'v state \<Rightarrow> error + 'v state" where
  "drop_result r = (case r of Inl e \<Rightarrow> Inl e | Inr (b, s) \<Rightarrow> Inr s)"

fun exec :: "'v operation \<Rightarrow> 'v state \<Rightarrow> (error + 'v state) option" where
  "exec (Append v) s = Some (append v s)"
| "exec (Prepend v) s = Some (prepend v s)"
| "exec (Insert v i) s = Some (drop_result (insert_ll v i s))"
| "exec DeleteFirst s = Some (deleteFirst s)"
| "exec DeleteLast s = deleteLast s"
| "exec (DeletePosition i) s = Some (drop_result (deletePosition i s))"
| "exec Reverse s = reverseLinkedList s"

fun run :: "'v operation list \<Rightarrow> 'v state \<Rightarrow> (error + 'v state) option" where
  "run [] s = Some (Inr s)"
| "run (x # xs) s =
     (case exec x s of
        None \<Rightarrow> None
      | Some (Inl e) \<Rightarrow> Some (Inl e)
      | Some (Inr s') \<Rightarrow> run xs s')"

fun exec_bq :: "'v operation \<Rightarrow> 'v state \<Rightarrow> (error + 'v state) option" where
  "exec_bq (Append v) s = Some (append v s)"
| "exec_bq (Prepend v) s = Some (prepend v s)"
| "exec_bq (Insert v i) s = Some (drop_result (insert_bq v i s))"
| "exec_bq DeleteFirst s = Some (deleteFirst_bq s)"
| "exec_bq DeleteLast s = deleteLast_bq s"
| "exec_bq (DeletePosition i) s = Some (drop_result (deletePosition_bq i s))"
| "exec_bq Reverse s = Some (reverseLinkedList_bq s)"

fun run_bq :: "'v operation list \<Rightarrow> 'v state \<Rightarrow> (error + 'v state) option" where
  "run_bq [] s = Some (Inr s)"
| "run_bq (x # xs) s =
     (case exec_bq x s of
        None \<Rightarrow> None
      | Some (Inl e) \<Rightarrow> Some (Inl e)
      | Some (Inr s') \<Rightarrow> run_bq xs s')"

section \<open>Well-formed lists\<close>

text \<open>
  \<open>lseg h p xs q\<close>: following \<^verbatim>\<open>next\<close> from \<open>p\<close> visits exactly the live nodes listed in
  \<open>xs\<close> (address and value, in order) and arrives at \<open>q\<close>.
\<close>

fun lseg :: "'v heap \<Rightarrow> addr option \<Rightarrow> (addr \<times> 'v) list \<Rightarrow> addr option \<Rightarrow> bool" where
  "lseg h p [] q = (p = q)"
| "lseg h p (x # xs) q =
     (p = Some (fst x) \<and>
      (case cell h (fst x) of
         None \<Rightarrow> False
       | Some n \<Rightarrow> val n = snd x \<and> lseg h (nxt n) xs q))"

text \<open>
  A state represents the sequence \<open>xs\<close> of nodes when the chain from \<^verbatim>\<open>head\<close> is \<open>xs\<close>
  and ends in null, \<^verbatim>\<open>length\<close> is the number of nodes, and \<^verbatim>\<open>tail\<close> is the last node
  (null for the empty list).
\<close>

definition models :: "'v state \<Rightarrow> (addr \<times> 'v) list \<Rightarrow> bool" where
  "models s xs =
     (lseg (heap s) (head s) xs None \<and>
      length_ll s = int (length xs) \<and>
      tail s = (if xs = [] then None else Some (fst (last xs))))"

text \<open>
  The chain from \<open>p\<close>, computed: at most \<open>k\<close> nodes are followed, and the result is \<open>None\<close>
  when a dead cell is met or the chain is longer than \<open>k\<close>. A chain without a cycle
  has at most as many nodes as the memory has cells.
\<close>

fun chain :: "'v heap \<Rightarrow> nat \<Rightarrow> addr option \<Rightarrow> (addr \<times> 'v) list option" where
  "chain h 0 p = (case p of None \<Rightarrow> Some [] | Some _ \<Rightarrow> None)"
| "chain h (Suc k) p =
     (case p of
        None \<Rightarrow> Some []
      | Some a \<Rightarrow>
          (case cell h a of
             None \<Rightarrow> None
           | Some n \<Rightarrow> map_option ((#) (a, val n)) (chain h k (nxt n))))"

text \<open>
  The invariants of the data model in one executable predicate: the chain from
  \<^verbatim>\<open>head\<close> reaches null through live nodes only (so it has no cycle), \<^verbatim>\<open>length\<close> is
  the number of its nodes, and \<^verbatim>\<open>tail\<close> is its last node, or null when it is empty.
\<close>

definition well_formed :: "'v state \<Rightarrow> bool" where
  "well_formed s =
     (case chain (heap s) (length (heap s)) (head s) of
        None \<Rightarrow> False
      | Some xs \<Rightarrow>
          length_ll s = int (length xs) \<and>
          tail s = (if xs = [] then None else Some (fst (last xs))))"

section \<open>Chains in memory\<close>

text \<open>
  Reading a cell after an allocation or an update, and the frame properties of
  \<open>lseg\<close>: a chain is untouched by an allocation and by an update outside it, a
  chain that ends in null is determined by its start, and it visits no node twice.
\<close>

lemma cell_append: "cell (h @ [x]) a = (if a = length h then x else cell h a)"
  by (auto simp: cell_def nth_append)

lemma cell_update: "cell (h[a := x]) b = (if b = a \<and> a < length h then x else cell h b)"
  by (auto simp: cell_def)

lemma cell_Some_less: "cell h a = Some n \<Longrightarrow> a < length h"
  by (auto simp: cell_def split: if_splits)

lemma lseg_append: "lseg h p (xs @ ys) q = (\<exists>r. lseg h p xs r \<and> lseg h r ys q)"
  by (induction xs arbitrary: p) (auto split: option.splits)

lemma lseg_live: "lseg h p xs q \<Longrightarrow> a \<in> fst ` set xs \<Longrightarrow> a < length h"
  by (induction xs arbitrary: p) (auto split: option.splits dest: cell_Some_less)

lemma lseg_update: "a \<notin> fst ` set xs \<Longrightarrow> lseg (h[a := x]) p xs q = lseg h p xs q"
  by (induction xs arbitrary: p) (auto simp: cell_update split: option.splits)

lemma lseg_alloc: "lseg h p xs q \<Longrightarrow> lseg (h @ [x]) p xs q"
proof (induction xs arbitrary: p)
  case Nil
  then show ?case by simp
next
  case (Cons y ys)
  then show ?case
    by (auto simp: cell_append split: option.splits dest: cell_Some_less)
qed

lemma lseg_unique: "lseg h p xs None \<Longrightarrow> lseg h p ys None \<Longrightarrow> xs = ys"
proof (induction xs arbitrary: p ys)
  case Nil
  then show ?case by (cases ys) auto
next
  case (Cons x xs)
  then show ?case
    by (cases ys) (auto split: option.splits simp: prod_eq_iff)
qed

lemma lseg_None: "lseg h None xs q \<Longrightarrow> xs = []"
  by (cases xs) auto

lemma lseg_head_notin:
  assumes "lseg h (Some a) ((a, v) # xs) None"
  shows "a \<notin> fst ` set xs"
proof
  assume "a \<in> fst ` set xs"
  then obtain w where "(a, w) \<in> set xs" by auto
  then obtain ys zs where xs: "xs = ys @ (a, w) # zs"
    by (auto simp: in_set_conv_decomp)
  from assms have "lseg h (Some a) (((a, v) # ys) @ (a, w) # zs) None"
    by (simp add: xs)
  then obtain r where r: "lseg h r ((a, w) # zs) None"
    unfolding lseg_append by blast
  then have "r = Some a" by simp
  with r assms have "(a, w) # zs = (a, v) # xs"
    by (metis lseg_unique)
  then show False by (simp add: xs)
qed

lemma lseg_distinct:
  fixes h :: "'v heap"
  shows "lseg h p xs None \<Longrightarrow> distinct (map fst xs)"
proof (induction xs arbitrary: p)
  case Nil
  then show ?case by simp
next
  case (Cons x xs)
  obtain a v where x: "x = (a, v)" by (cases x)
  from Cons.prems have p: "lseg h (Some a) ((a, v) # xs) None"
    by (auto simp: x)
  then have "a \<notin> fst ` set xs" by (rule lseg_head_notin)
  moreover from p obtain n :: "'v node" where "lseg h (nxt n) xs None"
    by (auto split: option.splits)
  then have "distinct (map fst xs)" by (rule Cons.IH)
  ultimately show ?case by (simp add: x)
qed

text \<open>
  On such a chain the loops of the source do what they are meant to: the traversal
  returns the values, the counted walk arrives at the \<open>k\<close>-th node, and the search of
  \<^verbatim>\<open>deleteLast\<close> stops at the node before \<^verbatim>\<open>tail\<close>. The computed chain agrees with
  \<open>lseg\<close>, so \<open>well_formed\<close> holds exactly of the states that represent a sequence.
\<close>

lemma traverse_lseg:
  fixes h :: "'v heap"
  shows "lseg h p xs None \<Longrightarrow> traverse h p = Some (Inr (map snd xs))"
proof (induction xs arbitrary: p)
  case Nil
  then show ?case by (simp add: traverse.simps)
next
  case (Cons x xs)
  then obtain n :: "'v node" where n: "p = Some (fst x)" "cell h (fst x) = Some n"
      "val n = snd x" "lseg h (nxt n) xs None"
    by (auto split: option.splits)
  from Cons.IH [OF n(4)] n(1,2,3) show ?case
    by (subst traverse.simps) simp
qed

lemma chain_lseg: "chain h k p = Some xs \<Longrightarrow> lseg h p xs None"
proof (induction k arbitrary: p xs)
  case 0
  then show ?case by (auto split: option.splits)
next
  case (Suc k)
  then show ?case by (auto split: option.splits)
qed

lemma lseg_chain: "lseg h p xs None \<Longrightarrow> length xs \<le> k \<Longrightarrow> chain h k p = Some xs"
proof (induction k arbitrary: p xs)
  case 0
  then show ?case by simp
next
  case (Suc k)
  then show ?case by (cases xs) (auto split: option.splits)
qed

lemma lseg_length_le:
  assumes "lseg h p xs None"
  shows "length xs \<le> length h"
proof -
  have d: "distinct (map fst xs)" using assms by (rule lseg_distinct)
  have "set (map fst xs) \<subseteq> {..<length h}"
    using lseg_live [OF assms] by auto
  then have "card (set (map fst xs)) \<le> card {..<length h}"
    by (intro card_mono) auto
  moreover have "card (set (map fst xs)) = length xs"
    using distinct_card [OF d] by simp
  ultimately show ?thesis by simp
qed

lemma well_formed_iff: "well_formed s \<longleftrightarrow> (\<exists>xs. models s xs)"
proof
  assume "well_formed s"
  then show "\<exists>xs. models s xs"
    unfolding well_formed_def models_def
    by (auto split: option.splits dest: chain_lseg)
next
  assume "\<exists>xs. models s xs"
  then obtain xs where m: "models s xs" ..
  then have l: "lseg (heap s) (head s) xs None" by (simp add: models_def)
  have "chain (heap s) (length (heap s)) (head s) = Some xs"
    using l lseg_length_le [OF l] by (rule lseg_chain)
  with m show "well_formed s"
    by (simp add: well_formed_def models_def)
qed

lemma walk_lseg:
  fixes h :: "'v heap"
  shows "lseg h p xs q \<Longrightarrow> k \<le> length xs \<Longrightarrow>
    \<exists>r. walk h p k = Inr r \<and> lseg h p (take k xs) r \<and> lseg h r (drop k xs) q"
proof (induction k arbitrary: p xs)
  case 0
  then show ?case by simp
next
  case (Suc k)
  then obtain x ys where xs: "xs = x # ys" by (cases xs) auto
  with Suc.prems obtain n :: "'v node" where n: "p = Some (fst x)" "cell h (fst x) = Some n"
      "val n = snd x" "lseg h (nxt n) ys q"
    by (auto split: option.splits)
  from Suc.prems xs have "k \<le> length ys" by simp
  from Suc.IH [OF n(4) this] obtain r where
    "walk h (nxt n) k = Inr r" "lseg h (nxt n) (take k ys) r" "lseg h r (drop k ys) q"
    by blast
  with n xs show ?case by (simp add: deref_def)
qed

lemma find_before_lseg:
  fixes h :: "'v heap"
  shows "lseg h p (ys @ [y]) (Some t) \<Longrightarrow> t \<notin> fst ` set (ys @ [y]) \<Longrightarrow>
    find_before h (Some t) p = Some (Inr (Some (fst y)))"
proof (induction ys arbitrary: p)
  case Nil
  then show ?case
    by (subst find_before.simps) (auto simp: deref_def split: option.splits)
next
  case (Cons w ws)
  then obtain n :: "'v node" where n: "p = Some (fst w)" "cell h (fst w) = Some n"
      "lseg h (nxt n) (ws @ [y]) (Some t)"
    by (auto split: option.splits)
  from n(3) have "nxt n = Some (fst (hd (ws @ [y])))"
    by (cases ws) auto
  moreover have "fst (hd (ws @ [y])) \<in> fst ` set (ws @ [y])"
    by (cases ws) auto
  ultimately have ne: "nxt n \<noteq> Some t" using Cons.prems(2) by auto
  have "find_before h (Some t) (nxt n) = Some (Inr (Some (fst y)))"
    using n(3) Cons.prems(2) by (intro Cons.IH) auto
  with n ne show ?case
    by (subst find_before.simps) (simp add: deref_def)
qed

text \<open>
  Each operation of the header-based implementation, run on a state that represents
  \<open>xs\<close>, returns without a fault in a state that represents the expected sequence.
\<close>

lemma lseg_Cons:
  "lseg h p (x # xs) q \<longleftrightarrow>
     p = Some (fst x) \<and> (\<exists>n. cell h (fst x) = Some n \<and> val n = snd x \<and> lseg h (nxt n) xs q)"
  by (auto split: option.splits)

declare lseg.simps(2) [simp del]
declare lseg_Cons [simp]

lemma lseg_snoc:
  "lseg h p (ys @ [y]) q \<longleftrightarrow>
     lseg h p ys (Some (fst y)) \<and> (\<exists>n. cell h (fst y) = Some n \<and> val n = snd y \<and> nxt n = q)"
  by (auto simp: lseg_append lseg_Cons)

lemma lseg_snoc_notin:
  assumes "lseg h p (ys @ [y]) None"
  shows "fst y \<notin> fst ` set ys"
  using lseg_distinct [OF assms] by (auto simp: image_iff)

lemma models_Nil: "models s [] \<longleftrightarrow> head s = None \<and> tail s = None \<and> length_ll s = 0"
  by (auto simp: models_def)

lemma models_head: "models s xs \<Longrightarrow> head s = (if xs = [] then None else Some (fst (hd xs)))"
  by (cases xs) (auto simp: models_def)

lemma create_models: "models (create v) [(0, v)]"
  by (simp add: create_def new_node_def models_def cell_def)

lemma append_models:
  fixes s :: "'v state"
  assumes "models s xs"
  shows "\<exists>s'. append v s = Inr s' \<and> models s' (xs @ [(length (heap s), v)]) \<and> console s' = console s"
proof (cases xs rule: rev_cases)
  case Nil
  with assms show ?thesis
    by (simp add: models_Nil append_def new_node_def models_def cell_append)
next
  case (snoc ys y)
  let ?a = "length (heap s)"
  let ?h = "heap s @ [Some \<lparr>val = v, nxt = None\<rparr>]"
  from assms snoc have l: "lseg (heap s) (head s) (ys @ [y]) None"
    and t: "tail s = Some (fst y)" and len: "length_ll s = int (length ys) + 1"
    by (simp_all add: models_def)
  from l obtain n :: "'v node" where ys: "lseg (heap s) (head s) ys (Some (fst y))"
    and n: "cell (heap s) (fst y) = Some n" "val n = snd y" "nxt n = None"
    unfolding lseg_snoc by blast
  have hd: "head s \<noteq> None" using models_head [OF assms] snoc by simp
  have lt: "fst y < ?a" using n(1) by (rule cell_Some_less)
  let ?h' = "?h[fst y := Some (n\<lparr>nxt := Some ?a\<rparr>)]"
  have sn: "set_next ?h (tail s) (Some ?a) = Inr ?h'"
    using t n(1) lt by (simp add: set_next_def cell_append)
  have "lseg ?h' (head s) ys (Some (fst y))"
    using ys lseg_snoc_notin [OF l] by (simp add: lseg_update lseg_alloc)
  moreover have "cell ?h' (fst y) = Some (n\<lparr>nxt := Some ?a\<rparr>)"
    using lt by (simp add: cell_update)
  moreover have "cell ?h' ?a = Some \<lparr>val = v, nxt = None\<rparr>"
    using lt by (simp add: cell_update cell_append)
  ultimately have "lseg ?h' (head s) (ys @ [y, (?a, v)]) None"
    using n(2) by (auto simp: lseg_append lseg_Cons)
  with hd sn len snoc show ?thesis
    by (auto simp: append_def new_node_def models_def)
qed

lemma prepend_models:
  fixes s :: "'v state"
  assumes "models s xs"
  shows "\<exists>s'. prepend v s = Inr s' \<and> models s' ((length (heap s), v) # xs) \<and> console s' = console s"
proof (cases xs)
  case Nil
  with assms show ?thesis
    by (simp add: models_Nil prepend_def new_node_def models_def cell_append)
next
  case (Cons y ys)
  let ?a = "length (heap s)"
  let ?h = "heap s @ [Some \<lparr>val = v, nxt = None\<rparr>]"
  let ?h' = "?h[?a := Some \<lparr>val = v, nxt = head s\<rparr>]"
  from assms have l: "lseg (heap s) (head s) xs None"
    and t: "tail s = (if xs = [] then None else Some (fst (last xs)))" and len: "length_ll s = int (length xs)"
    by (simp_all add: models_def)
  have hd: "head s \<noteq> None" using models_head [OF assms] Cons by simp
  have sn: "set_next ?h (Some ?a) (head s) = Inr ?h'"
    by (simp add: set_next_def cell_append)
  have len_h: "length ?h = Suc ?a" by simp
  have "?a \<notin> fst ` set xs" using lseg_live [OF l] by blast
  then have "lseg ?h' (head s) xs None"
    using l by (simp add: lseg_update lseg_alloc)
  moreover have "cell ?h' ?a = Some \<lparr>val = v, nxt = head s\<rparr>"
    by (simp add: cell_def)
  ultimately have "lseg ?h' (Some ?a) ((?a, v) # xs) None"
    by (simp add: lseg_Cons)
  with hd sn len t Cons show ?thesis
    by (auto simp: prepend_def new_node_def models_def)
qed

lemma deleteFirst_models:
  fixes s :: "'v state"
  assumes "models s xs"
  shows "\<exists>s'. deleteFirst s = Inr s' \<and> models s' (tl xs) \<and> console s' = console s"
proof (cases xs)
  case Nil
  with assms show ?thesis by (simp add: models_Nil deleteFirst_def)
next
  case (Cons x ys)
  from assms Cons obtain n :: "'v node" where hd: "head s = Some (fst x)"
    and n: "cell (heap s) (fst x) = Some n" "lseg (heap s) (nxt n) ys None"
    and t: "tail s = Some (fst (last (x # ys)))" and len: "length_ll s = int (length ys) + 1"
    by (auto simp: models_def)
  from assms Cons have "lseg (heap s) (Some (fst x)) ((fst x, snd x) # ys) None"
    by (simp add: models_def hd)
  then have "fst x \<notin> fst ` set ys" by (rule lseg_head_notin)
  then have l: "lseg ((heap s)[fst x := None]) (nxt n) ys None"
    using n(2) by (simp add: lseg_update)
  have e: "nxt n = None \<longleftrightarrow> ys = []"
    using n(2) by (cases ys) auto
  show ?thesis
    using hd n(1) l t len e Cons
    by (auto simp: deleteFirst_def deref_def delete_node_def models_def)
qed

lemma deleteLast_models:
  fixes s :: "'v state"
  assumes "models s xs"
  shows "\<exists>s'. deleteLast s = Some (Inr s') \<and> models s' (butlast xs) \<and> console s' = console s"
proof -
  consider "xs = []" | x where "xs = [x]" | ys y z where "xs = ys @ [y, z]"
  proof (cases xs rule: rev_cases)
    case Nil
    then show ?thesis using that by blast
  next
    case (snoc ws z)
    then show ?thesis using that by (cases ws rule: rev_cases) auto
  qed
  then show ?thesis
  proof cases
    case 1
    with assms show ?thesis by (simp add: models_Nil deleteLast_def)
  next
    case 2
    with assms show ?thesis
      by (auto simp: models_def deleteLast_def delete_node_def)
  next
    case 3
    from assms 3 have l: "lseg (heap s) (head s) (ys @ [y, z]) None"
      and t: "tail s = Some (fst z)" and len: "length_ll s = int (length ys) + 2"
      by (simp_all add: models_def)
    have d: "distinct (map fst (ys @ [y, z]))" using l by (rule lseg_distinct)
    from l have l': "lseg (heap s) (head s) ((ys @ [y]) @ [z]) None" by simp
    then obtain nz :: "'v node" where ly: "lseg (heap s) (head s) (ys @ [y]) (Some (fst z))"
      and nz: "cell (heap s) (fst z) = Some nz"
      unfolding lseg_snoc by blast
    from ly obtain ny :: "'v node" where lys: "lseg (heap s) (head s) ys (Some (fst y))"
      and ny: "cell (heap s) (fst y) = Some ny" "val ny = snd y"
      unfolding lseg_snoc by blast
    have zn: "fst z \<notin> fst ` set (ys @ [y])" using d by (auto simp: image_iff)
    have yn: "fst y \<notin> fst ` set ys" using d by (auto simp: image_iff)
    have fb: "find_before (heap s) (tail s) (head s) = Some (Inr (Some (fst y)))"
      unfolding t using ly zn by (rule find_before_lseg)
    have hd: "head s = Some (fst (hd (ys @ [y])))"
      using models_head [OF assms] 3 by (cases ys) auto
    have "fst (hd (ys @ [y])) \<in> fst ` set (ys @ [y])" by (cases ys) auto
    with zn have "fst (hd (ys @ [y])) \<noteq> fst z" by metis
    then have ne: "head s \<noteq> tail s" unfolding hd t by simp
    let ?h1 = "(heap s)[fst z := None]"
    let ?h2 = "?h1[fst y := Some (ny\<lparr>nxt := None\<rparr>)]"
    have dn: "delete_node (heap s) (tail s) = Inr ?h1"
      using nz t by (simp add: delete_node_def)
    have "fst y \<noteq> fst z" using d by auto
    then have sn: "set_next ?h1 (Some (fst y)) None = Inr ?h2"
      using ny by (simp add: set_next_def cell_update)
    have "lseg ?h2 (head s) ys (Some (fst y))"
      using lys zn yn by (simp add: lseg_update)
    moreover have "cell ?h2 (fst y) = Some (ny\<lparr>nxt := None\<rparr>)"
      using cell_Some_less [OF ny(1)] by (simp add: cell_update)
    ultimately have "lseg ?h2 (head s) (ys @ [y]) None"
      using ny(2) by (simp add: lseg_snoc)
    then show ?thesis
      using hd ne fb dn sn t len 3
      by (simp add: deleteLast_def models_def butlast_append)
  qed
qed

lemma lseg_realloc:
  "length h \<notin> fst ` set xs \<Longrightarrow> lseg (h @ [x]) p xs q = lseg (h @ [y]) p xs q"
  by (induction xs arbitrary: p) (auto simp: cell_append)

lemma insert_ll_models:
  fixes s :: "'v state"
  assumes m: "models s xs" and i: "0 \<le> i" "i \<le> int (length xs)"
  shows "\<exists>s'. insert_ll v i s = Inr (True, s') \<and>
           models s' (take (nat i) xs @ (length (heap s), v) # drop (nat i) xs) \<and>
           console s' = console s"
proof -
  from m have len: "length_ll s = int (length xs)" by (simp add: models_def)
  consider "i = 0" | "i \<noteq> 0" "i = int (length xs)" | "0 < i" "i < int (length xs)"
    using i by linarith
  then show ?thesis
  proof cases
    case 1
    with prepend_models [OF m, of v] len show ?thesis
      by (auto simp: insert_ll_def)
  next
    case 2
    with append_models [OF m, of v] len i show ?thesis
      by (auto simp: insert_ll_def)
  next
    case 3
    define k where "k = nat (i - 1)"
    have k: "Suc k = nat i" "Suc k < length xs" using 3 by (auto simp: k_def)
    let ?a = "length (heap s)"
    let ?h = "heap s @ [Some \<lparr>val = v, nxt = None\<rparr>]"
    from m have l0: "lseg (heap s) (head s) xs None" by (simp add: models_def)
    then have l: "lseg ?h (head s) xs None" by (rule lseg_alloc)
    have fresh: "?a \<notin> fst ` set xs" using lseg_live [OF l0] by blast
    from k have "k \<le> length xs" by simp
    from walk_lseg [OF l this] obtain r where w: "walk ?h (head s) k = Inr r"
      and pre: "lseg ?h (head s) (take k xs) r" and post: "lseg ?h r (drop k xs) None"
      by blast
    obtain x where dx: "drop k xs = x # drop (Suc k) xs"
      using k by (metis Cons_nth_drop_Suc Suc_lessD)
    from post dx obtain pn :: "'v node" where r: "r = Some (fst x)"
      and pn: "cell ?h (fst x) = Some pn" "val pn = snd x"
      and rest: "lseg ?h (nxt pn) (drop (Suc k) xs) None"
      by auto
    have xs: "xs = take k xs @ x # drop (Suc k) xs"
      using dx by (metis append_take_drop_id)
    have d: "distinct (map fst (take k xs @ x # drop (Suc k) xs))"
      using lseg_distinct [OF l0] xs by simp
    have x1: "fst x \<notin> fst ` set (take k xs)" and x2: "fst x \<notin> fst ` set (drop (Suc k) xs)"
      using d by (auto simp: image_iff)
    have a1: "?a \<notin> fst ` set (take k xs)" and a2: "?a \<notin> fst ` set (drop (Suc k) xs)"
      using fresh by (auto dest: in_set_takeD in_set_dropD)
    have xa: "fst x \<noteq> ?a" using fresh xs by (metis image_eqI in_set_conv_decomp)
    have xlt: "fst x < length ?h" using pn(1) by (rule cell_Some_less)
    let ?h1 = "?h[?a := Some \<lparr>val = v, nxt = nxt pn\<rparr>]"
    let ?h2 = "?h1[fst x := Some (pn\<lparr>nxt := Some ?a\<rparr>)]"
    have s1: "set_next ?h (Some ?a) (nxt pn) = Inr ?h1"
      by (simp add: set_next_def cell_append)
    have s2: "set_next ?h1 r (Some ?a) = Inr ?h2"
      using pn(1) xa by (simp add: set_next_def r cell_update cell_append)
    have h1: "?h1 = heap s @ [Some \<lparr>val = v, nxt = nxt pn\<rparr>]" by simp
    have "lseg ?h1 (head s) (take k xs) (Some (fst x))"
      unfolding h1 using pre r lseg_realloc [OF a1] by blast
    then have "lseg ?h2 (head s) (take k xs) (Some (fst x))"
      by (subst lseg_update [OF x1])
    moreover have "cell ?h2 (fst x) = Some (pn\<lparr>nxt := Some ?a\<rparr>)"
      using xlt by (simp add: cell_update)
    moreover have "cell ?h2 ?a = Some \<lparr>val = v, nxt = nxt pn\<rparr>"
      using xa by (simp add: cell_update cell_append)
    moreover have "lseg ?h1 (nxt pn) (drop (Suc k) xs) None"
      unfolding h1 using rest lseg_realloc [OF a2] by blast
    then have "lseg ?h2 (nxt pn) (drop (Suc k) xs) None"
      by (subst lseg_update [OF x2])
    ultimately have new: "lseg ?h2 (head s) (take k xs @ x # (?a, v) # drop (Suc k) xs) None"
      using pn(2) by (auto simp: lseg_append)
    have tk: "take (Suc k) xs = take k xs @ [x]"
      using dx k by (metis Cons_nth_drop_Suc Suc_lessD list.inject take_Suc_conv_app_nth)
    have ne: "drop (Suc k) xs \<noteq> []" using k by simp
    have "xs \<noteq> []" using k by auto
    then have tl: "tail s = Some (fst (last xs))" using m by (simp add: models_def)
    have "last xs = last (drop (Suc k) xs)" using k by simp
    with tl ne have tl': "tail s = Some (fst (last (drop (Suc k) xs)))" by simp
    have "insert_ll v i s = Inr (True, s\<lparr>heap := ?h2, length_ll := length_ll s + 1\<rparr>)"
      using 3 len w s1 s2 pn(1) r
      by (simp add: insert_ll_def new_node_def k_def [symmetric] deref_def)
    moreover have "models (s\<lparr>heap := ?h2, length_ll := length_ll s + 1\<rparr>)
        ((take k xs @ [x]) @ (?a, v) # drop (Suc k) xs)"
      using new tl' ne len k(2) by (simp add: models_def min_def)
    then have "models (s\<lparr>heap := ?h2, length_ll := length_ll s + 1\<rparr>)
        (take (nat i) xs @ (?a, v) # drop (nat i) xs)"
      unfolding tk [symmetric] k(1) .
    ultimately show ?thesis by simp
  qed
qed

lemma deletePosition_models:
  fixes s :: "'v state"
  assumes m: "models s xs" and i: "0 \<le> i" "i < int (length xs)"
  shows "\<exists>s'. deletePosition i s = Inr (True, s') \<and>
           models s' (take (nat i) xs @ drop (Suc (nat i)) xs) \<and>
           console s' = console s"
proof (cases "i = 0")
  case True
  from m have "length_ll s = int (length xs)" by (simp add: models_def)
  with True deleteFirst_models [OF m] i show ?thesis
    by (auto simp: deletePosition_def drop_Suc)
next
  case False
  define k where "k = nat (i - 1)"
  have k: "Suc k = nat i" "Suc k < length xs" using False i by (auto simp: k_def)
  from m have len: "length_ll s = int (length xs)"
    and l: "lseg (heap s) (head s) xs None" by (simp_all add: models_def)
  from k have "k \<le> length xs" by simp
  from walk_lseg [OF l this] obtain r where w: "walk (heap s) (head s) k = Inr r"
    and pre: "lseg (heap s) (head s) (take k xs) r" and post: "lseg (heap s) r (drop k xs) None"
    by blast
  obtain x where dx: "drop k xs = x # drop (Suc k) xs"
    using k by (metis Cons_nth_drop_Suc Suc_lessD)
  define rest where "rest = drop (Suc (Suc k)) xs"
  obtain y where dy: "drop (Suc k) xs = y # rest"
    unfolding rest_def using k by (metis Cons_nth_drop_Suc)
  from post dx dy obtain pn dn :: "'v node" where r: "r = Some (fst x)"
    and pn: "cell (heap s) (fst x) = Some pn" "val pn = snd x" "nxt pn = Some (fst y)"
    and dn: "cell (heap s) (fst y) = Some dn"
    and rest: "lseg (heap s) (nxt dn) rest None"
    by auto
  have xs: "xs = take k xs @ x # y # rest"
    using dx dy by (metis append_take_drop_id)
  have d: "distinct (map fst (take k xs @ x # y # rest))"
    using lseg_distinct [OF l] xs by simp
  have x1: "fst x \<notin> fst ` set (take k xs)" and x2: "fst x \<notin> fst ` set rest"
    and y1: "fst y \<notin> fst ` set (take k xs)" and y2: "fst y \<notin> fst ` set rest"
    and xy: "fst x \<noteq> fst y"
    using d by (auto simp: image_iff)
  let ?h1 = "(heap s)[fst x := Some (pn\<lparr>nxt := nxt dn\<rparr>)]"
  let ?h2 = "?h1[fst y := None]"
  have s1: "set_next (heap s) r (nxt dn) = Inr ?h1"
    using pn(1) by (simp add: set_next_def r)
  have s2: "delete_node ?h1 (nxt pn) = Inr ?h2"
    using dn xy by (simp add: delete_node_def pn(3) cell_update)
  have "lseg ?h2 (head s) (take k xs) (Some (fst x))"
    using pre x1 y1 by (simp add: lseg_update r)
  moreover have "cell ?h2 (fst x) = Some (pn\<lparr>nxt := nxt dn\<rparr>)"
    using xy cell_Some_less [OF pn(1)] by (simp add: cell_update)
  moreover have "lseg ?h2 (nxt dn) rest None"
    using rest x2 y2 by (simp add: lseg_update)
  ultimately have new: "lseg ?h2 (head s) (take k xs @ x # rest) None"
    using pn(2) by (auto simp: lseg_append)
  have tk: "take (Suc k) xs = take k xs @ [x]"
    using dx k by (metis Cons_nth_drop_Suc Suc_lessD list.inject take_Suc_conv_app_nth)
  have "xs \<noteq> []" using k by auto
  then have tl: "tail s = Some (fst (last xs))" using m by (simp add: models_def)
  have lastxs: "last xs = (if rest = [] then y else last rest)"
    by (subst xs) simp
  have "rest \<noteq> [] \<Longrightarrow> last rest \<in> set rest" by (rule last_in_set)
  with y2 have yl: "rest \<noteq> [] \<Longrightarrow> fst y \<noteq> fst (last rest)" by (metis image_eqI)
  have tl': "(if nxt pn = tail s then r else tail s)
      = Some (fst (last (take k xs @ x # rest)))"
    unfolding tl lastxs pn(3) r using yl by (cases "rest = []") simp_all
  let ?s' = "s\<lparr>heap := ?h2, tail := (if nxt pn = tail s then r else tail s),
                 length_ll := length_ll s - 1\<rparr>"
  have "deletePosition i s = Inr (True, ?s')"
    using False i len w s1 s2 pn(1) dn r
    by (simp add: deletePosition_def k_def [symmetric] deref_def pn(3))
  moreover have "length rest = length xs - Suc (Suc k)" by (simp add: rest_def)
  then have "models ?s' ((take k xs @ [x]) @ rest)"
    unfolding models_def using new tl' len k(2) by (simp add: min_def)
  then have "models ?s' (take (nat i) xs @ drop (Suc (nat i)) xs)"
    unfolding tk [symmetric] k(1) rest_def .
  ultimately show ?thesis by simp
qed

lemma reverse_loop_lseg:
  fixes h :: "'v heap"
  shows "lseg h cur xs None \<Longrightarrow> lseg h prev ys None \<Longrightarrow> fst ` set xs \<inter> fst ` set ys = {} \<Longrightarrow>
    \<exists>h' r. reverse_loop h prev cur = Some (Inr (h', r)) \<and> lseg h' r (rev xs @ ys) None"
proof (induction xs arbitrary: h cur prev ys)
  case Nil
  then show ?case by (subst reverse_loop.simps) simp
next
  case (Cons x xs)
  from Cons.prems(1) obtain n :: "'v node" where c: "cur = Some (fst x)"
    and n: "cell h (fst x) = Some n" "val n = snd x" "lseg h (nxt n) xs None"
    by auto
  let ?h1 = "h[fst x := Some (n\<lparr>nxt := prev\<rparr>)]"
  have "lseg h (Some (fst x)) ((fst x, snd x) # xs) None"
    using Cons.prems(1) c by simp
  then have x1: "fst x \<notin> fst ` set xs" by (rule lseg_head_notin)
  have x2: "fst x \<notin> fst ` set ys" using Cons.prems(3) by auto
  have a: "lseg ?h1 (nxt n) xs None" using n(3) x1 by (simp add: lseg_update)
  have "lseg ?h1 prev ys None" using Cons.prems(2) x2 by (simp add: lseg_update)
  moreover have "cell ?h1 (fst x) = Some (n\<lparr>nxt := prev\<rparr>)"
    using cell_Some_less [OF n(1)] by (simp add: cell_update)
  ultimately have b: "lseg ?h1 cur (x # ys) None"
    using n(2) c by simp
  have "fst ` set xs \<inter> fst ` set (x # ys) = {}"
    using Cons.prems(3) x1 by auto
  from Cons.IH [OF a b this] obtain h' r where
    "reverse_loop ?h1 cur (nxt n) = Some (Inr (h', r))" "lseg h' r (rev xs @ x # ys) None"
    by blast
  then show ?case
    using c n(1) by (subst reverse_loop.simps) (simp add: deref_def set_next_def)
qed

lemma reverseLinkedList_models:
  fixes s :: "'v state"
  assumes m: "models s xs"
  shows "\<exists>s'. reverseLinkedList s = Some (Inr s') \<and> models s' (rev xs) \<and>
           console s' = console s \<and> tail s' = head s"
proof -
  from m have l: "lseg (heap s) (head s) xs None" by (simp add: models_def)
  have "lseg (heap s) None [] None" by simp
  from reverse_loop_lseg [OF l this] obtain h' r where
    r: "reverse_loop (heap s) None (head s) = Some (Inr (h', r))" "lseg h' r (rev xs) None"
    by auto
  have "xs \<noteq> [] \<Longrightarrow> last (rev xs) = hd xs" by (simp add: last_rev)
  then show ?thesis
    using r m models_head [OF m]
    by (auto simp: reverseLinkedList_def models_def)
qed

section \<open>Sequences of operations on the header-based implementation\<close>

text \<open>
  Every operation of the header-based implementation takes a state that represents a
  sequence of nodes to a state that represents one, without a fault and without
  running forever; so does every sequence of operations.
\<close>

lemma models_to_list: "models s xs \<Longrightarrow> to_list s = Some (Inr (map snd xs))"
  by (simp add: models_def to_list_def traverse_lseg)

lemma insert_ll_out_of_range:
  "index < 0 \<or> length_ll s < index \<Longrightarrow> insert_ll v index s = Inr (False, s)"
  by (auto simp: insert_ll_def)

lemma deletePosition_out_of_range:
  "index < 0 \<or> length_ll s \<le> index \<Longrightarrow> deletePosition index s = Inr (False, s)"
  by (auto simp: deletePosition_def)

lemma exec_models:
  assumes m: "models s xs"
  shows "\<exists>s' xs'. exec x s = Some (Inr s') \<and> models s' xs'"
proof (cases x)
  case (Append v)
  with append_models [OF m, of v] show ?thesis by auto
next
  case (Prepend v)
  with prepend_models [OF m, of v] show ?thesis by auto
next
  case (Insert v i)
  from m have len: "length_ll s = int (length xs)" by (simp add: models_def)
  show ?thesis
  proof (cases "0 \<le> i \<and> i \<le> int (length xs)")
    case True
    with insert_ll_models [OF m, of i v] Insert show ?thesis
      by (auto simp: drop_result_def)
  next
    case False
    then have "insert_ll v i s = Inr (False, s)"
      using len by (intro insert_ll_out_of_range) auto
    with m Insert show ?thesis by (auto simp: drop_result_def)
  qed
next
  case DeleteFirst
  with deleteFirst_models [OF m] show ?thesis by auto
next
  case DeleteLast
  with deleteLast_models [OF m] show ?thesis by auto
next
  case (DeletePosition i)
  from m have len: "length_ll s = int (length xs)" by (simp add: models_def)
  show ?thesis
  proof (cases "0 \<le> i \<and> i < int (length xs)")
    case True
    with deletePosition_models [OF m, of i] DeletePosition show ?thesis
      by (auto simp: drop_result_def)
  next
    case False
    then have "deletePosition i s = Inr (False, s)"
      using len by (intro deletePosition_out_of_range) auto
    with m DeletePosition show ?thesis by (auto simp: drop_result_def)
  qed
next
  case Reverse
  with reverseLinkedList_models [OF m] show ?thesis by auto
qed

lemma run_models:
  "models s xs \<Longrightarrow> \<exists>s' xs'. run ops s = Some (Inr s') \<and> models s' xs'"
proof (induction ops arbitrary: s xs)
  case Nil
  then show ?case by auto
next
  case (Cons x ops)
  from exec_models [OF Cons.prems] obtain s1 xs1 where
    "exec x s = Some (Inr s1)" "models s1 xs1" by blast
  with Cons.IH [OF this(2)] show ?case by simp
qed

lemma run_create: "\<exists>s xs. run ops (create v) = Some (Inr s) \<and> models s xs"
  using run_models [OF create_models] .

lemma models_tail:
  fixes s :: "'v state"
  assumes "models s xs"
  shows "(length_ll s = 0 \<longrightarrow> head s = None \<and> tail s = None) \<and>
         (0 < length_ll s \<longrightarrow>
            walk (heap s) (head s) (nat (length_ll s - 1)) = Inr (tail s) \<and>
            (\<exists>n. deref (heap s) (tail s) = Inr n \<and> nxt n = None))"
proof (cases xs rule: rev_cases)
  case Nil
  with assms show ?thesis by (simp add: models_Nil)
next
  case (snoc ys y)
  from assms snoc have l: "lseg (heap s) (head s) (ys @ [y]) None"
    and t: "tail s = Some (fst y)" and len: "length_ll s = int (length ys) + 1"
    by (simp_all add: models_def)
  from l obtain n :: "'v node" where n: "cell (heap s) (fst y) = Some n" "nxt n = None"
    unfolding lseg_snoc by blast
  have "length ys \<le> length (ys @ [y])" by simp
  from walk_lseg [OF l this] have "walk (heap s) (head s) (length ys) = Inr (Some (fst y))"
    by auto
  with n t len show ?thesis by (simp add: deref_def)
qed

section \<open>Further facts about the header-based implementation\<close>

lemma insert_ll_at_length:
  assumes m: "models s xs"
  shows "\<exists>s'. append v s = Inr s' \<and> insert_ll v (length_ll s) s = Inr (True, s') \<and>
           models s' (xs @ [(length (heap s), v)])"
proof -
  from append_models [OF m, of v] obtain s' where
    a: "append v s = Inr s'" "models s' (xs @ [(length (heap s), v)])" by blast
  from m have len: "length_ll s = int (length xs)" by (simp add: models_def)
  have "insert_ll v (length_ll s) s = Inr (True, s')"
  proof (cases xs)
    case Nil
    with m have "head s = None" "length_ll s = 0" by (simp_all add: models_Nil)
    then have "prepend v s = append v s" by (simp add: prepend_def append_def)
    with a \<open>length_ll s = 0\<close> show ?thesis by (simp add: insert_ll_def)
  next
    case (Cons y ys)
    with len a show ?thesis by (simp add: insert_ll_def)
  qed
  with a show ?thesis by blast
qed

lemma reverse_twice:
  assumes m: "models s xs"
  shows "\<exists>s1 s2. reverseLinkedList s = Some (Inr s1) \<and> reverseLinkedList s1 = Some (Inr s2) \<and>
           models s2 xs"
proof -
  from reverseLinkedList_models [OF m] obtain s1 where
    1: "reverseLinkedList s = Some (Inr s1)" "models s1 (rev xs)" by blast
  from reverseLinkedList_models [OF 1(2)] obtain s2 where
    "reverseLinkedList s1 = Some (Inr s2)" "models s2 (rev (rev xs))" by blast
  with 1 show ?thesis by auto
qed

lemma reverse_small:
  fixes s :: "'v state"
  assumes m: "models s xs" and small: "length xs \<le> 1"
  shows "reverseLinkedList s = Some (Inr s)"
proof (cases xs)
  case Nil
  with m show ?thesis
    by (simp add: models_Nil reverseLinkedList_def reverse_loop.simps)
next
  case (Cons x ys)
  with small have xs: "xs = [x]" by simp
  with m obtain n :: "'v node" where hd: "head s = Some (fst x)" "tail s = Some (fst x)"
    and n: "cell (heap s) (fst x) = Some n" "nxt n = None"
    by (auto simp: models_def)
  have lt: "fst x < length (heap s)" using n(1) by (rule cell_Some_less)
  then have "heap s ! fst x = Some n" using n(1) by (simp add: cell_def)
  moreover have "n\<lparr>nxt := None\<rparr> = n" using n(2) by simp
  ultimately have same: "(heap s)[fst x := Some (n\<lparr>nxt := None\<rparr>)] = heap s"
    by (simp add: list_update_same_conv lt)
  have "reverse_loop (heap s) None (head s) = Some (Inr (heap s, head s))"
    unfolding hd
    by (subst reverse_loop.simps)
       (simp add: deref_def set_next_def n same reverse_loop.simps [of _ _ None])
  then show ?thesis
    by (simp add: reverseLinkedList_def hd)
qed

lemma deletePosition_last:
  fixes s :: "'v state"
  assumes m: "models s xs" and ne: "xs \<noteq> []"
  shows "\<exists>s'. deleteLast s = Some (Inr s') \<and>
           deletePosition (length_ll s - 1) s = Inr (True, s') \<and> models s' (butlast xs)"
proof -
  from deleteLast_models [OF m] obtain s' where
    dl: "deleteLast s = Some (Inr s')" "models s' (butlast xs)" by blast
  consider x where "xs = [x]" | ys y z where "xs = ys @ [y, z]"
  proof (cases xs rule: rev_cases)
    case Nil
    with ne show ?thesis by simp
  next
    case (snoc ws z)
    then show ?thesis using that by (cases ws rule: rev_cases) auto
  qed
  then have "deletePosition (length_ll s - 1) s = Inr (True, s')"
  proof cases
    case 1
    with m obtain n :: "'v node" where "head s = Some (fst x)" "tail s = Some (fst x)"
      "cell (heap s) (fst x) = Some n" "nxt n = None" "length_ll s = 1"
      by (auto simp: models_def)
    with dl(1) show ?thesis
      by (auto simp: deletePosition_def deleteFirst_def deleteLast_def deref_def
            delete_node_def)
  next
    case 2
    from m 2 have l: "lseg (heap s) (head s) (ys @ [y, z]) None"
      and t: "tail s = Some (fst z)" and len: "length_ll s = int (length ys) + 2"
      by (simp_all add: models_def)
    have d: "distinct (map fst (ys @ [y, z]))" using l by (rule lseg_distinct)
    have yz: "fst y \<noteq> fst z" using d by auto
    have zn: "fst z \<notin> fst ` set (ys @ [y])" using d by (auto simp: image_iff)
    have "length ys \<le> length (ys @ [y, z])" by simp
    from walk_lseg [OF l this] obtain ny nz :: "'v node" where
      w: "walk (heap s) (head s) (length ys) = Inr (Some (fst y))"
      and ly: "lseg (heap s) (head s) ys (Some (fst y))"
      and ny: "cell (heap s) (fst y) = Some ny" "nxt ny = Some (fst z)"
      and nz: "cell (heap s) (fst z) = Some nz" "nxt nz = None"
      by auto
    from ly ny have "lseg (heap s) (head s) (ys @ [y]) (Some (fst z))"
      using l by (auto simp: lseg_append)
    then have fb: "find_before (heap s) (tail s) (head s) = Some (Inr (Some (fst y)))"
      unfolding t using zn by (rule find_before_lseg)
    have hd: "head s = Some (fst (hd (ys @ [y])))"
      using models_head [OF m] 2 by (cases ys) auto
    have "fst (hd (ys @ [y])) \<in> fst ` set (ys @ [y])" by (cases ys) auto
    with zn have "fst (hd (ys @ [y])) \<noteq> fst z" by metis
    then have hne: "head s \<noteq> tail s" unfolding hd t by simp
    have "deleteLast s = Some (Inr (s\<lparr>heap := (heap s)[fst z := None,
              fst y := Some (ny\<lparr>nxt := None\<rparr>)], tail := Some (fst y),
              length_ll := length_ll s - 1\<rparr>))"
      using hd hne fb t nz(1) ny(1) yz
      by (simp add: deleteLast_def delete_node_def set_next_def cell_update)
    with dl(1) have s': "s' = s\<lparr>heap := (heap s)[fst z := None,
              fst y := Some (ny\<lparr>nxt := None\<rparr>)], tail := Some (fst y),
              length_ll := length_ll s - 1\<rparr>" by simp
    have "deletePosition (length_ll s - 1) s =
        Inr (True, s\<lparr>heap := (heap s)[fst y := Some (ny\<lparr>nxt := None\<rparr>), fst z := None],
              tail := Some (fst y), length_ll := length_ll s - 1\<rparr>)"
      using len w ny nz yz t
      by (simp add: deletePosition_def deref_def set_next_def delete_node_def cell_update)
    then show ?thesis
      unfolding s' using yz by (simp add: list_update_swap)
  qed
  with dl show ?thesis by blast
qed

lemma take_insert_drop:
  "k \<le> length xs \<Longrightarrow> take k (take k xs @ x # drop k xs) @ drop (Suc k) (take k xs @ x # drop k xs) = xs"
  by (simp add: min_def)

section \<open>The JavaScript deletions\<close>

lemma deleteFirst_js_models:
  fixes s :: "'a js state"
  assumes m: "models s xs" and ne: "xs \<noteq> []"
  shows "\<exists>s'. deleteFirst_js s = Inr (snd (hd xs), s') \<and> models s' (tl xs)"
proof -
  from ne obtain x ys where xs: "xs = x # ys" by (cases xs) auto
  from m xs obtain n :: "'a js node" where hd: "head s = Some (fst x)"
    and n: "cell (heap s) (fst x) = Some n" "val n = snd x" "lseg (heap s) (nxt n) ys None"
    and t: "tail s = Some (fst (last (x # ys)))" and len: "length_ll s = int (length ys) + 1"
    by (auto simp: models_def)
  have e: "nxt n = None \<longleftrightarrow> ys = []"
    using n(3) by (cases ys) auto
  show ?thesis
    using hd n t len e xs
    by (auto simp: deleteFirst_js_def deref_def models_def)
qed

lemma deleteLast_js_models:
  fixes s :: "'a js state"
  assumes m: "models s xs" and ne: "xs \<noteq> []"
  shows "\<exists>s'. deleteLast_js s = Some (Inr (snd (last xs), s')) \<and> models s' (butlast xs)"
proof -
  consider x where "xs = [x]" | ys y z where "xs = ys @ [y, z]"
  proof (cases xs rule: rev_cases)
    case Nil
    with ne show ?thesis by simp
  next
    case (snoc ws z)
    then show ?thesis using that by (cases ws rule: rev_cases) auto
  qed
  then show ?thesis
  proof cases
    case 1
    with m show ?thesis
      by (auto simp: models_def deleteLast_js_def deref_def)
  next
    case 2
    from m 2 have l: "lseg (heap s) (head s) (ys @ [y, z]) None"
      and t: "tail s = Some (fst z)" and len: "length_ll s = int (length ys) + 2"
      by (simp_all add: models_def)
    have d: "distinct (map fst (ys @ [y, z]))" using l by (rule lseg_distinct)
    from l have "lseg (heap s) (head s) ((ys @ [y]) @ [z]) None" by simp
    then obtain nz :: "'a js node" where ly: "lseg (heap s) (head s) (ys @ [y]) (Some (fst z))"
      and nz: "cell (heap s) (fst z) = Some nz" "val nz = snd z"
      unfolding lseg_snoc by blast
    from ly obtain ny :: "'a js node" where lys: "lseg (heap s) (head s) ys (Some (fst y))"
      and ny: "cell (heap s) (fst y) = Some ny" "val ny = snd y"
      unfolding lseg_snoc by blast
    have zn: "fst z \<notin> fst ` set (ys @ [y])" using d by (auto simp: image_iff)
    have yn: "fst y \<notin> fst ` set ys" using d by (auto simp: image_iff)
    have fb: "find_before (heap s) (tail s) (head s) = Some (Inr (Some (fst y)))"
      unfolding t using ly zn by (rule find_before_lseg)
    have hd: "head s = Some (fst (hd (ys @ [y])))"
      using models_head [OF m] 2 by (cases ys) auto
    have "fst (hd (ys @ [y])) \<in> fst ` set (ys @ [y])" by (cases ys) auto
    with zn have "fst (hd (ys @ [y])) \<noteq> fst z" by metis
    then have hne: "head s \<noteq> tail s" unfolding hd t by simp
    let ?h = "(heap s)[fst y := Some (ny\<lparr>nxt := None\<rparr>)]"
    have sn: "set_next (heap s) (Some (fst y)) None = Inr ?h"
      using ny by (simp add: set_next_def)
    have "lseg ?h (head s) ys (Some (fst y))"
      using lys yn by (simp add: lseg_update)
    moreover have "cell ?h (fst y) = Some (ny\<lparr>nxt := None\<rparr>)"
      using cell_Some_less [OF ny(1)] by (simp add: cell_update)
    ultimately have "lseg ?h (head s) (ys @ [y]) None"
      using ny(2) by (simp add: lseg_snoc)
    then show ?thesis
      using hd hne fb sn t len 2 nz
      by (simp add: deleteLast_js_def models_def butlast_append deref_def)
  qed
qed

section \<open>The cached length\<close>

text \<open>
  In the header-based implementation, after the constructor and any sequence of
  operations the traversal from \<^verbatim>\<open>head\<close> ends, and \<^verbatim>\<open>length\<close> is the number of nodes
  it visits.
\<close>

lemma length_counts_nodes:
  "\<exists>s vs. run ops (create v) = Some (Inr s) \<and> to_list s = Some (Inr vs) \<and>
     length_ll s = int (length vs)"
proof -
  from run_create [of ops v] obtain s xs where "run ops (create v) = Some (Inr s)" "models s xs"
    by blast
  then show ?thesis by (auto simp: models_to_list models_def)
qed

text \<open>
  Claim C1: for every sequence of list operations the cached length equals the number
  of nodes reachable from \<^verbatim>\<open>head\<close>. The class of \<^verbatim>\<open>basic-question.cpp\<close> breaks this:
  its \<^verbatim>\<open>deletePosition\<close> never updates \<^verbatim>\<open>tail\<close>, so deleting the last of two nodes
  leaves \<^verbatim>\<open>tail\<close> at the freed node, and \<^verbatim>\<open>reverseLinkedList\<close> then copies it into
  \<^verbatim>\<open>head\<close>. The first run below ends with \<^verbatim>\<open>length\<close> 1 and a \<^verbatim>\<open>head\<close> that points at
  a dead cell: the traversal from \<^verbatim>\<open>head\<close> visits no live node. The second run uses
  the unchecked \<^verbatim>\<open>insert\<close> of that class: index \<open>-1\<close> links the new node after the only
  node without moving \<^verbatim>\<open>tail\<close>, and the next \<^verbatim>\<open>append\<close> overwrites that link; it ends
  with \<^verbatim>\<open>length\<close> 3 and two nodes reachable from \<^verbatim>\<open>head\<close>.
\<close>

theorem length_mismatch_bq:
  "run_bq [Append 2, DeletePosition 1, Reverse] (create (1::int)) =
     Some (Inr \<lparr>heap = [Some \<lparr>val = 1, nxt = None\<rparr>, None], head = Some 1, tail = Some 0,
                 length_ll = 1, console = []\<rparr>) \<and>
   to_list \<lparr>heap = [Some \<lparr>val = 1::int, nxt = None\<rparr>, None], head = Some 1, tail = Some 0,
            length_ll = 1, console = []\<rparr> = Some (Inl Dangling) \<and>
   run_bq [Insert 99 (- 1), Append 7] (create (10::int)) =
     Some (Inr \<lparr>heap = [Some \<lparr>val = 10, nxt = Some 2\<rparr>, Some \<lparr>val = 99, nxt = None\<rparr>,
                         Some \<lparr>val = 7, nxt = None\<rparr>],
                 head = Some 0, tail = Some 2, length_ll = 3, console = []\<rparr>) \<and>
   to_list \<lparr>heap = [Some \<lparr>val = 10::int, nxt = Some 2\<rparr>, Some \<lparr>val = 99, nxt = None\<rparr>,
                     Some \<lparr>val = 7, nxt = None\<rparr>],
            head = Some 0, tail = Some 2, length_ll = 3, console = []\<rparr> = Some (Inr [10, 7])"
  by code_simp

section \<open>The tail pointer\<close>

text \<open>
  In the header-based implementation, after the constructor and any sequence of
  operations: an empty list has null \<^verbatim>\<open>head\<close> and \<^verbatim>\<open>tail\<close>; in a non-empty list
  \<^verbatim>\<open>length - 1\<close> steps from \<^verbatim>\<open>head\<close> arrive at \<^verbatim>\<open>tail\<close>, whose \<^verbatim>\<open>next\<close> is null.
\<close>

lemma tail_invariant:
  "\<exists>s. run ops (create v) = Some (Inr s) \<and>
     (length_ll s = 0 \<longrightarrow> head s = None \<and> tail s = None) \<and>
     (0 < length_ll s \<longrightarrow>
        walk (heap s) (head s) (nat (length_ll s - 1)) = Inr (tail s) \<and>
        (\<exists>n. deref (heap s) (tail s) = Inr n \<and> nxt n = None))"
proof -
  from run_create [of ops v] obtain s xs where r: "run ops (create v) = Some (Inr s)" and m: "models s xs"
    by blast
  from models_tail [OF m] r show ?thesis by blast
qed

text \<open>
  Claim C2: after every sequence of operations, a list of length 0 has null \<^verbatim>\<open>head\<close>
  and \<^verbatim>\<open>tail\<close>, and in a longer list \<^verbatim>\<open>tail\<close> is the last node. In the class of
  \<^verbatim>\<open>basic-question.cpp\<close>, \<^verbatim>\<open>deletePosition(0)\<close> on a one-element list frees the node and
  clears \<^verbatim>\<open>head\<close> but leaves \<^verbatim>\<open>tail\<close> pointing at it: \<^verbatim>\<open>length\<close> is 0 and \<^verbatim>\<open>tail\<close> is
  not null.
\<close>

theorem stale_tail_bq:
  "deletePosition_bq 0 (create (1::int)) =
     Inr (True, \<lparr>heap = [None], head = None, tail = Some 0, length_ll = 0, console = []\<rparr>)"
  by code_simp

section \<open>Insertion out of range\<close>

text \<open>
  In the header-based implementation an index outside \<open>[0, length]\<close> makes \<^verbatim>\<open>insert\<close>
  return \<^verbatim>\<open>false\<close> and change nothing, whatever the state: this is
  \<open>insert_ll_out_of_range\<close> above.
\<close>

text \<open>
  Claim C3: for every index outside \<open>[0, length]\<close>, \<^verbatim>\<open>insert\<close> fails with an
  out-of-range indication and leaves the list unchanged. The \<^verbatim>\<open>insert\<close> of
  \<^verbatim>\<open>basic-question.cpp\<close> has no range check: with index \<open>-1\<close> on the list \<open>[10]\<close> its
  loop does not run, the new node is linked after the head, and the call returns
  \<^verbatim>\<open>true\<close> with the list \<open>[10, 99]\<close> of length 2; with index 5 on the same list the
  loop runs off the end of the chain and the call faults.
\<close>

theorem insert_bq_out_of_range:
  "insert_bq 99 (- 1) (create (10::int)) =
     Inr (True, \<lparr>heap = [Some \<lparr>val = 10, nxt = Some 1\<rparr>, Some \<lparr>val = 99, nxt = None\<rparr>],
                 head = Some 0, tail = Some 0, length_ll = 2, console = []\<rparr>) \<and>
   to_list \<lparr>heap = [Some \<lparr>val = 10::int, nxt = Some 1\<rparr>, Some \<lparr>val = 99, nxt = None\<rparr>],
            head = Some 0, tail = Some 0, length_ll = 2, console = []\<rparr> = Some (Inr [10, 99]) \<and>
   insert_bq 99 5 (create (10::int)) = Inl NullDeref"
  by code_simp

section \<open>Deleting the last position\<close>

text \<open>
  In the header-based implementation, on a non-empty well-formed list
  \<^verbatim>\<open>deletePosition(length - 1)\<close> and \<^verbatim>\<open>deleteLast()\<close> end in the same state: the last
  value is gone, \<^verbatim>\<open>length\<close> is one less and \<^verbatim>\<open>tail\<close> is the predecessor.
\<close>

lemma deletePosition_last_is_deleteLast:
  assumes wf: "well_formed s" and ne: "head s \<noteq> None"
  shows "\<exists>vs s'. to_list s = Some (Inr vs) \<and> deleteLast s = Some (Inr s') \<and>
           deletePosition (length_ll s - 1) s = Inr (True, s') \<and>
           to_list s' = Some (Inr (butlast vs)) \<and> length_ll s' = length_ll s - 1 \<and>
           well_formed s'"
proof -
  from wf obtain xs where m: "models s xs" by (auto simp: well_formed_iff)
  with ne have xs: "xs \<noteq> []" by (auto simp: models_Nil)
  from deletePosition_last [OF m xs] obtain s' where
    s': "deleteLast s = Some (Inr s')" "deletePosition (length_ll s - 1) s = Inr (True, s')"
      "models s' (butlast xs)" by blast
  have "0 < length xs" using xs by simp
  then have "int (length xs - Suc 0) = int (length xs) - 1" by linarith
  then have "length_ll s' = length_ll s - 1"
    using m s'(3) by (simp add: models_def)
  moreover have "well_formed s'" using s'(3) by (auto simp: well_formed_iff)
  ultimately show ?thesis
    using s' models_to_list [OF m] models_to_list [OF s'(3)]
    by (simp add: map_butlast)
qed

text \<open>
  Claim C4: on a non-empty list \<^verbatim>\<open>deletePosition\<close> at index \<open>length - 1\<close> behaves as
  \<^verbatim>\<open>deleteLast\<close>, and \<^verbatim>\<open>tail\<close> becomes the predecessor of the removed node. In the
  class of \<^verbatim>\<open>basic-question.cpp\<close>, on the list \<open>[1, 2]\<close>, \<^verbatim>\<open>deleteLast\<close> moves \<^verbatim>\<open>tail\<close> to
  the first node (address 0) while \<^verbatim>\<open>deletePosition(1)\<close> leaves it at the freed second
  node (address 1).
\<close>

theorem deletePosition_bq_keeps_tail:
  "append 2 (create (1::int)) =
     Inr \<lparr>heap = [Some \<lparr>val = 1, nxt = Some 1\<rparr>, Some \<lparr>val = 2, nxt = None\<rparr>],
          head = Some 0, tail = Some 1, length_ll = 2, console = []\<rparr> \<and>
   deletePosition_bq 1
     \<lparr>heap = [Some \<lparr>val = 1::int, nxt = Some 1\<rparr>, Some \<lparr>val = 2, nxt = None\<rparr>],
      head = Some 0, tail = Some 1, length_ll = 2, console = []\<rparr> =
     Inr (True, \<lparr>heap = [Some \<lparr>val = 1, nxt = None\<rparr>, None],
                 head = Some 0, tail = Some 1, length_ll = 1, console = []\<rparr>) \<and>
   deleteLast_bq
     \<lparr>heap = [Some \<lparr>val = 1::int, nxt = Some 1\<rparr>, Some \<lparr>val = 2, nxt = None\<rparr>],
      head = Some 0, tail = Some 1, length_ll = 2, console = []\<rparr> =
     Some (Inr \<lparr>heap = [Some \<lparr>val = 1, nxt = None\<rparr>, None],
                 head = Some 0, tail = Some 0, length_ll = 1, console = []\<rparr>)"
  by code_simp

section \<open>Reversal\<close>

text \<open>
  In the header-based implementation, reversing a well-formed list twice gives back
  the same values, the same \<^verbatim>\<open>length\<close> and the same \<^verbatim>\<open>head\<close> and \<^verbatim>\<open>tail\<close>.
\<close>

lemma reverse_involution:
  assumes wf: "well_formed s"
  shows "\<exists>vs s1 s2. to_list s = Some (Inr vs) \<and> reverseLinkedList s = Some (Inr s1) \<and>
           reverseLinkedList s1 = Some (Inr s2) \<and> to_list s2 = Some (Inr vs) \<and>
           length_ll s2 = length_ll s \<and> head s2 = head s \<and> tail s2 = tail s"
proof -
  from wf obtain xs where m: "models s xs" by (auto simp: well_formed_iff)
  from reverse_twice [OF m] obtain s1 s2 where
    r: "reverseLinkedList s = Some (Inr s1)" "reverseLinkedList s1 = Some (Inr s2)"
      "models s2 xs" by blast
  have "head s2 = head s" "tail s2 = tail s" "length_ll s2 = length_ll s"
    using m r(3) models_head [OF m] models_head [OF r(3)] by (simp_all add: models_def)
  then show ?thesis
    using r models_to_list [OF m] models_to_list [OF r(3)] by simp
qed

text \<open>
  Claim C5: \<^verbatim>\<open>reverse\<close> is an involution on every list. The \<^verbatim>\<open>reverseLinkedList\<close> of
  \<^verbatim>\<open>basic-question.cpp\<close> reads \<^verbatim>\<open>temp->next\<close> before its loop, with \<^verbatim>\<open>temp\<close> the old
  head: on the empty list (the constructor followed by \<^verbatim>\<open>deleteFirst\<close>) this reads
  through the null pointer, so reversing twice is a fault and not the empty list.
\<close>

theorem reverse_twice_bq_empty:
  "deleteFirst_bq (create (1::int)) =
     Inr \<lparr>heap = [None], head = None, tail = None, length_ll = 0, console = []\<rparr> \<and>
   (case reverseLinkedList_bq
           \<lparr>heap = [None :: int node option], head = None, tail = None, length_ll = 0,
            console = []\<rparr> of
      Inl e \<Rightarrow> Inl e
    | Inr s \<Rightarrow> reverseLinkedList_bq s) = Inl NullDeref"
  by code_simp

text \<open>
  In the header-based implementation, \<^verbatim>\<open>reverseLinkedList\<close> on a well-formed list
  reverses the values, swaps \<^verbatim>\<open>head\<close> and \<^verbatim>\<open>tail\<close>, keeps \<^verbatim>\<open>length\<close>, and leaves a list
  of at most one node exactly as it was.
\<close>

lemma reverse_reverses:
  assumes wf: "well_formed s"
  shows "\<exists>vs s'. to_list s = Some (Inr vs) \<and> reverseLinkedList s = Some (Inr s') \<and>
           to_list s' = Some (Inr (rev vs)) \<and> head s' = tail s \<and> tail s' = head s \<and>
           length_ll s' = length_ll s \<and> (length_ll s \<le> 1 \<longrightarrow> s' = s)"
proof -
  from wf obtain xs where m: "models s xs" by (auto simp: well_formed_iff)
  from reverseLinkedList_models [OF m] obtain s' where
    r: "reverseLinkedList s = Some (Inr s')" "models s' (rev xs)" "tail s' = head s" by blast
  have "xs \<noteq> [] \<Longrightarrow> hd (rev xs) = last xs" by (simp add: hd_rev)
  then have "head s' = tail s"
    using m models_head [OF r(2)] by (auto simp: models_def)
  moreover have "length_ll s' = length_ll s"
    using m r(2) by (simp add: models_def)
  moreover have "length_ll s \<le> 1 \<longrightarrow> s' = s"
  proof
    assume "length_ll s \<le> 1"
    with m have "length xs \<le> 1" by (simp add: models_def)
    from reverse_small [OF m this] r(1) show "s' = s" by simp
  qed
  ultimately show ?thesis
    using r models_to_list [OF m] models_to_list [OF r(2)] by (simp add: rev_map)
qed

text \<open>
  Claim C6: \<^verbatim>\<open>reverse\<close> reverses the value sequence, swapping head and tail, and on an
  empty or single-element list it is a no-op that cannot fail. In the class of
  \<^verbatim>\<open>basic-question.cpp\<close>, \<^verbatim>\<open>reverseLinkedList\<close> on the empty list dereferences the null
  \<^verbatim>\<open>head\<close> (\<^verbatim>\<open>Node* after = temp->next;\<close>): a fault, not a no-op.
\<close>

theorem reverse_bq_empty_faults:
  "run_bq [DeleteFirst] (create (1::int)) =
     Some (Inr \<lparr>heap = [None], head = None, tail = None, length_ll = 0, console = []\<rparr>) \<and>
   reverseLinkedList_bq
     \<lparr>heap = [None :: int node option], head = None, tail = None, length_ll = 0, console = []\<rparr> =
     Inl NullDeref"
  by code_simp

section \<open>Deleting from an empty list\<close>

text \<open>
  Claim C7, as stated: on an empty list \<^verbatim>\<open>deleteFirst\<close> and \<^verbatim>\<open>deleteLast\<close> report the
  empty-list condition to the caller and never swallow it. Both are \<^verbatim>\<open>void\<close>, and in
  the header-based implementation the guard is a bare \<^verbatim>\<open>if (!head) return;\<close>: on the
  empty list the call completes normally and the whole state, console included, is
  what it was. Nothing is reported.
\<close>

theorem empty_delete_unreported:
  "deleteFirst (create (1::int)) =
     Inr \<lparr>heap = [None], head = None, tail = None, length_ll = 0, console = []\<rparr> \<and>
   deleteFirst \<lparr>heap = [None :: int node option], head = None, tail = None, length_ll = 0,
                console = []\<rparr> =
     Inr \<lparr>heap = [None], head = None, tail = None, length_ll = 0, console = []\<rparr> \<and>
   deleteLast \<lparr>heap = [None :: int node option], head = None, tail = None, length_ll = 0,
               console = []\<rparr> =
     Some (Inr \<lparr>heap = [None], head = None, tail = None, length_ll = 0, console = []\<rparr>)"
  by code_simp

text \<open>
  Claim C7, amended: on an empty list \<^verbatim>\<open>deleteFirst\<close> and \<^verbatim>\<open>deleteLast\<close> complete
  without a fault and leave memory, \<^verbatim>\<open>head\<close>, \<^verbatim>\<open>tail\<close> and \<^verbatim>\<open>length\<close> unchanged. Nothing
  is returned to the caller: the header-based implementation does nothing at all,
  and the class of \<^verbatim>\<open>basic-question.cpp\<close> writes one error line to standard output.
\<close>

theorem delete_on_empty:
  assumes "head s = None"
  shows "deleteFirst s = Inr s \<and> deleteLast s = Some (Inr s) \<and>
         deleteFirst_bq s =
           Inr (s\<lparr>console := console s @ [''Error: Cannot delete from an empty list.'']\<rparr>) \<and>
         deleteLast_bq s =
           Some (Inr (s\<lparr>console := console s @ [''Error: Cannot delete from an empty list.'']\<rparr>))"
  using assms
  by (simp add: deleteFirst_def deleteLast_def deleteFirst_bq_def deleteLast_bq_def print_def)

theorem delete_on_empty_witness:
  "head \<lparr>heap = [None :: int node option], head = None, tail = None, length_ll = 0, console = []\<rparr> = None \<and>
   deleteFirst \<lparr>heap = [None :: int node option], head = None, tail = None, length_ll = 0, console = []\<rparr> =
     Inr \<lparr>heap = [None], head = None, tail = None, length_ll = 0, console = []\<rparr> \<and>
   deleteLast_bq \<lparr>heap = [None :: int node option], head = None, tail = None, length_ll = 0, console = []\<rparr> =
     Some (Inr \<lparr>heap = [None], head = None, tail = None, length_ll = 0,
                 console = [''Error: Cannot delete from an empty list.'']\<rparr>)"
  using delete_on_empty [of "\<lparr>heap = [None :: int node option], head = None, tail = None,
      length_ll = 0, console = []\<rparr>"]
  by simp

section \<open>Insertion at the end\<close>

text \<open>
  In the header-based implementation, on a well-formed list \<^verbatim>\<open>insert(v, length)\<close>
  returns \<^verbatim>\<open>true\<close> and ends in the very state \<^verbatim>\<open>append(v)\<close> ends in.
\<close>

lemma insert_ll_at_length_is_append:
  assumes wf: "well_formed s"
  shows "\<exists>vs s'. to_list s = Some (Inr vs) \<and> append v s = Inr s' \<and>
           insert_ll v (length_ll s) s = Inr (True, s') \<and>
           to_list s' = Some (Inr (vs @ [v])) \<and> length_ll s' = length_ll s + 1"
proof -
  from wf obtain xs where m: "models s xs" by (auto simp: well_formed_iff)
  from insert_ll_at_length [OF m, of v] obtain s' where
    s': "append v s = Inr s'" "insert_ll v (length_ll s) s = Inr (True, s')"
      "models s' (xs @ [(length (heap s), v)])" by blast
  have "length_ll s' = length_ll s + 1" using m s'(3) by (simp add: models_def)
  then show ?thesis
    using s' models_to_list [OF m] models_to_list [OF s'(3)] by simp
qed

text \<open>
  Claim C8: \<^verbatim>\<open>insert(v, length)\<close> behaves as \<^verbatim>\<open>append(v)\<close> on every list. The \<^verbatim>\<open>insert\<close> of
  \<^verbatim>\<open>basic-question.cpp\<close> appends when the index is \<open>length - 1\<close>; with index \<open>length\<close> on
  the list \<open>[10]\<close> its loop walks one step past the last node and then reads
  \<^verbatim>\<open>prev->next\<close> through the null pointer, where \<^verbatim>\<open>append\<close> gives \<open>[10, 5]\<close>.
\<close>

theorem insert_bq_at_length_faults:
  "insert_bq 5 1 (create (10::int)) = Inl NullDeref \<and>
   append 5 (create (10::int)) =
     Inr \<lparr>heap = [Some \<lparr>val = 10, nxt = Some 1\<rparr>, Some \<lparr>val = 5, nxt = None\<rparr>],
          head = Some 0, tail = Some 1, length_ll = 2, console = []\<rparr>"
  by code_simp

section \<open>Insertion followed by deletion\<close>

text \<open>
  Claim C9: in the header-based implementation, for every well-formed list, value
  \<open>v\<close> and index \<open>i\<close> in \<open>[0, length]\<close>, \<^verbatim>\<open>insert(v, i)\<close> succeeds and puts \<open>v\<close> at position
  \<open>i\<close>, and \<^verbatim>\<open>deletePosition(i)\<close> then succeeds and restores the list: the same
  values, the same \<^verbatim>\<open>length\<close>, the same \<^verbatim>\<open>head\<close> and \<^verbatim>\<open>tail\<close>.
\<close>

theorem insert_then_deletePosition:
  assumes wf: "well_formed s" and i: "0 \<le> i" "i \<le> length_ll s"
  shows "\<exists>vs s1 s2. to_list s = Some (Inr vs) \<and>
           insert_ll v i s = Inr (True, s1) \<and>
           to_list s1 = Some (Inr (take (nat i) vs @ v # drop (nat i) vs)) \<and>
           length_ll s1 = length_ll s + 1 \<and>
           deletePosition i s1 = Inr (True, s2) \<and>
           to_list s2 = Some (Inr vs) \<and> length_ll s2 = length_ll s \<and>
           head s2 = head s \<and> tail s2 = tail s \<and> well_formed s2"
proof -
  from wf obtain xs where m: "models s xs" by (auto simp: well_formed_iff)
  then have len: "length_ll s = int (length xs)" by (simp add: models_def)
  define k where "k = nat i"
  have k: "k \<le> length xs" using i len by (simp add: k_def)
  let ?ys = "take k xs @ (length (heap s), v) # drop k xs"
  from insert_ll_models [OF m i(1), of v] i(2) len obtain s1 where
    1: "insert_ll v i s = Inr (True, s1)" "models s1 ?ys"
    by (auto simp: k_def)
  have "i < int (length ?ys)" using i len k by (simp add: k_def)
  from deletePosition_models [OF 1(2) i(1) this] obtain s2 where
    2: "deletePosition i s1 = Inr (True, s2)" "models s2 (take k ?ys @ drop (Suc k) ?ys)"
    by (auto simp: k_def)
  from 2(2) have m2: "models s2 xs" by (simp only: take_insert_drop [OF k])
  have "to_list s1 = Some (Inr (take k (map snd xs) @ v # drop k (map snd xs)))"
    using models_to_list [OF 1(2)] by (simp add: take_map drop_map)
  moreover have "length_ll s1 = length_ll s + 1"
    using 1(2) len k by (simp add: models_def)
  moreover have "head s2 = head s" "tail s2 = tail s" "length_ll s2 = length_ll s"
    using m m2 models_head [OF m] models_head [OF m2] by (simp_all add: models_def)
  moreover have "well_formed s2" using m2 by (auto simp: well_formed_iff)
  ultimately show ?thesis
    using 1(1) 2(1) models_to_list [OF m] models_to_list [OF m2]
    by (simp add: k_def)
qed

theorem insert_then_deletePosition_witness:
  "well_formed \<lparr>heap = [Some \<lparr>val = 20::int, nxt = Some 1\<rparr>, Some \<lparr>val = 10, nxt = None\<rparr>],
                 head = Some 0, tail = Some 1, length_ll = 2, console = []\<rparr> \<and>
   (0::int) \<le> 1 \<and>
   1 \<le> length_ll \<lparr>heap = [Some \<lparr>val = 20::int, nxt = Some 1\<rparr>, Some \<lparr>val = 10, nxt = None\<rparr>],
                 head = Some 0, tail = Some 1, length_ll = 2, console = []\<rparr> \<and>
   (\<exists>s1 s2.
      insert_ll 99 1 \<lparr>heap = [Some \<lparr>val = 20::int, nxt = Some 1\<rparr>, Some \<lparr>val = 10, nxt = None\<rparr>],
                 head = Some 0, tail = Some 1, length_ll = 2, console = []\<rparr> = Inr (True, s1) \<and>
      to_list s1 = Some (Inr [20, 99, 10]) \<and>
      deletePosition 1 s1 = Inr (True, s2) \<and>
      to_list s2 = Some (Inr [20, 10]) \<and> length_ll s2 = 2)"
proof -
  let ?s = "\<lparr>heap = [Some \<lparr>val = 20::int, nxt = Some 1\<rparr>, Some \<lparr>val = 10, nxt = None\<rparr>],
                 head = Some 0, tail = Some 1, length_ll = 2, console = []\<rparr>"
  have wf: "well_formed ?s" by code_simp
  have tl: "to_list ?s = Some (Inr [20, 10])" by code_simp
  have i: "(0::int) \<le> 1" "1 \<le> length_ll ?s" by simp_all
  from insert_then_deletePosition [OF wf i, of 99] tl wf show ?thesis
    by auto
qed

section \<open>What the JavaScript deletions return\<close>

text \<open>
  Claim C10: in the JavaScript class, \<^verbatim>\<open>deleteFirst\<close> and \<^verbatim>\<open>deleteLast\<close> on an empty list
  return \<^verbatim>\<open>null\<close> and change nothing but the console, which receives the warning; on a
  non-empty well-formed list they return the first and the last value and leave the
  rest of the list, one shorter.
\<close>

theorem js_delete_returns_value:
  fixes s :: "'a js state"
  shows "(head s = None \<longrightarrow>
            deleteFirst_js s =
              Inr (Null, s\<lparr>console := console s @ [''Warning: Cannot delete from an empty list.'']\<rparr>) \<and>
            deleteLast_js s =
              Some (Inr (Null, s\<lparr>console := console s @ [''Warning: Cannot delete from an empty list.'']\<rparr>))) \<and>
         (well_formed s \<and> head s \<noteq> None \<longrightarrow>
            (\<exists>vs s1 s2. to_list s = Some (Inr vs) \<and> vs \<noteq> [] \<and>
               deleteFirst_js s = Inr (hd vs, s1) \<and> to_list s1 = Some (Inr (tl vs)) \<and>
               length_ll s1 = length_ll s - 1 \<and>
               deleteLast_js s = Some (Inr (last vs, s2)) \<and> to_list s2 = Some (Inr (butlast vs)) \<and>
               length_ll s2 = length_ll s - 1))"
proof (intro conjI impI)
  assume "head s = None"
  then show "deleteFirst_js s =
      Inr (Null, s\<lparr>console := console s @ [''Warning: Cannot delete from an empty list.'']\<rparr>)"
    by (simp add: deleteFirst_js_def print_def)
next
  assume "head s = None"
  then show "deleteLast_js s =
      Some (Inr (Null, s\<lparr>console := console s @ [''Warning: Cannot delete from an empty list.'']\<rparr>))"
    by (simp add: deleteLast_js_def print_def)
next
  assume a: "well_formed s \<and> head s \<noteq> None"
  then obtain xs where m: "models s xs" by (auto simp: well_formed_iff)
  with a have ne: "xs \<noteq> []" by (auto simp: models_Nil)
  from deleteFirst_js_models [OF m ne] obtain s1 where
    1: "deleteFirst_js s = Inr (snd (hd xs), s1)" "models s1 (tl xs)" by blast
  from deleteLast_js_models [OF m ne] obtain s2 where
    2: "deleteLast_js s = Some (Inr (snd (last xs), s2))" "models s2 (butlast xs)" by blast
  have "0 < length xs" using ne by simp
  then have "int (length xs - Suc 0) = int (length xs) - 1" by linarith
  then have "length_ll s1 = length_ll s - 1" "length_ll s2 = length_ll s - 1"
    using m 1(2) 2(2) by (simp_all add: models_def)
  moreover have "to_list s = Some (Inr (map snd xs))" "to_list s1 = Some (Inr (tl (map snd xs)))"
      "to_list s2 = Some (Inr (butlast (map snd xs)))"
    using m 1(2) 2(2) by (simp_all add: models_to_list map_tl map_butlast)
  moreover have "hd (map snd xs) = snd (hd xs)" "last (map snd xs) = snd (last xs)"
    using ne by (simp_all add: hd_map last_map)
  ultimately show "\<exists>vs s1 s2. to_list s = Some (Inr vs) \<and> vs \<noteq> [] \<and>
               deleteFirst_js s = Inr (hd vs, s1) \<and> to_list s1 = Some (Inr (tl vs)) \<and>
               length_ll s1 = length_ll s - 1 \<and>
               deleteLast_js s = Some (Inr (last vs, s2)) \<and> to_list s2 = Some (Inr (butlast vs)) \<and>
               length_ll s2 = length_ll s - 1"
    using 1(1) 2(1) ne by (intro exI [of _ "map snd xs"] exI [of _ s1] exI [of _ s2]) simp
qed

theorem js_delete_returns_value_witness:
  "head \<lparr>heap = [Some \<lparr>val = Val (1::int), nxt = None\<rparr>], head = None, tail = None,
          length_ll = 0, console = []\<rparr> = None \<and>
   deleteFirst_js \<lparr>heap = [Some \<lparr>val = Val (1::int), nxt = None\<rparr>], head = None, tail = None,
          length_ll = 0, console = []\<rparr> =
     Inr (Null, \<lparr>heap = [Some \<lparr>val = Val 1, nxt = None\<rparr>], head = None, tail = None,
          length_ll = 0, console = [''Warning: Cannot delete from an empty list.'']\<rparr>) \<and>
   well_formed \<lparr>heap = [Some \<lparr>val = Val (1::int), nxt = Some 1\<rparr>, Some \<lparr>val = Val 2, nxt = None\<rparr>],
          head = Some 0, tail = Some 1, length_ll = 2, console = []\<rparr> \<and>
   head \<lparr>heap = [Some \<lparr>val = Val (1::int), nxt = Some 1\<rparr>, Some \<lparr>val = Val 2, nxt = None\<rparr>],
          head = Some 0, tail = Some 1, length_ll = 2, console = []\<rparr> \<noteq> None \<and>
   (\<exists>s1 s2.
      deleteFirst_js \<lparr>heap = [Some \<lparr>val = Val (1::int), nxt = Some 1\<rparr>, Some \<lparr>val = Val 2, nxt = None\<rparr>],
          head = Some 0, tail = Some 1, length_ll = 2, console = []\<rparr> = Inr (Val 1, s1) \<and>
      to_list s1 = Some (Inr [Val 2]) \<and> length_ll s1 = 1 \<and>
      deleteLast_js \<lparr>heap = [Some \<lparr>val = Val (1::int), nxt = Some 1\<rparr>, Some \<lparr>val = Val 2, nxt = None\<rparr>],
          head = Some 0, tail = Some 1, length_ll = 2, console = []\<rparr> = Some (Inr (Val 2, s2)) \<and>
      to_list s2 = Some (Inr [Val 1]) \<and> length_ll s2 = 1)"
proof -
  let ?e = "\<lparr>heap = [Some \<lparr>val = Val (1::int), nxt = None\<rparr>], head = None, tail = None,
          length_ll = 0, console = []\<rparr>"
  let ?s = "\<lparr>heap = [Some \<lparr>val = Val (1::int), nxt = Some 1\<rparr>, Some \<lparr>val = Val 2, nxt = None\<rparr>],
          head = Some 0, tail = Some 1, length_ll = 2, console = []\<rparr>"
  have wf: "well_formed ?s" by code_simp
  have tl: "to_list ?s = Some (Inr [Val 1, Val 2])" by code_simp
  from js_delete_returns_value [of ?e] js_delete_returns_value [of ?s] wf tl
  show ?thesis by auto
qed

end
